theory Spec2Isabelle
  imports Main "HOL-Library.AList"
begin

section \<open>Data model\<close>

text \<open>
  Exceptions the stream code can raise: the explicit \<open>ValueError\<close> of
  \<open>Stream.__getitem__\<close>, the \<open>KeyError\<close> of a failed dictionary
  subscript, and the \<open>AttributeError\<close> of an operator whose second input
  handle was never set.
\<close>

datatype error = ValueError | KeyError | AttributeError

text \<open>
  The capability interface \<open>AbelianGroupOperation\<close> of \<open>dbspy.core\<close>:
  the three methods a stream's value type has to supply. The method
  \<open>identity()\<close> is the field \<open>identity_elem\<close> (the stream has a flag
  called \<open>identity\<close>).
\<close>

record 'a AbelianGroupOperation =
  add :: "'a \<Rightarrow> 'a \<Rightarrow> 'a"
  neg :: "'a \<Rightarrow> 'a"
  identity_elem :: "'a"

text \<open>
  \<open>class Stream\<close>. The two \<open>OrderedDict\<close>s are association lists in
  insertion order: assignment to a new key appends, assignment to an existing
  key replaces in place (\<open>AList.update\<close>), and equality of two
  \<open>OrderedDict\<close>s is equality of the lists.
\<close>

record 'a stream =
  timestamp :: int
  inner :: "(int \<times> 'a) list"
  group_op :: "'a AbelianGroupOperation"
  identity :: bool
  default_val :: 'a
  default_changes :: "(int \<times> 'a) list"

section \<open>Stream\<close>

text \<open>\<open>Stream.send\<close>\<close>

definition send :: "'a \<Rightarrow> 'a stream \<Rightarrow> 'a stream" where
  "send element s =
    (let s1 = (if element \<noteq> default_val s
               then s\<lparr>inner := AList.update (timestamp s + 1) element (inner s),
                      identity := False\<rparr>
               else s)
     in s1\<lparr>timestamp := timestamp s1 + 1\<rparr>)"

text \<open>\<open>Stream.__init__\<close>\<close>

definition Stream_init :: "'a AbelianGroupOperation \<Rightarrow> 'a stream" where
  "Stream_init g =
    send (identity_elem g)
      \<lparr>timestamp = - 1, inner = [], group_op = g, identity = True,
       default_val = identity_elem g,
       default_changes = AList.update 0 (identity_elem g) []\<rparr>"

definition group :: "'a stream \<Rightarrow> 'a AbelianGroupOperation" where
  "group s = group_op s"

definition get_current_time :: "'a stream \<Rightarrow> int" where
  "get_current_time s = timestamp s"

text \<open>
  \<open>Stream.set_default\<close>: the body is \<open>return NotImplementedError\<close>, which
  hands the exception class back as a value and touches no attribute; every
  caller drops the returned value.
\<close>

definition set_default :: "'a \<Rightarrow> 'a stream \<Rightarrow> 'a stream" where
  "set_default new_default s = s"

text \<open>
  The \<open>while\<close> loop of \<open>__getitem__\<close>: send the default until the cursor
  has reached the requested timestamp.
\<close>

function extend_to :: "int \<Rightarrow> 'a stream \<Rightarrow> 'a stream" where
  "extend_to t s =
    (if t > get_current_time s then extend_to t (send (default_val s) s) else s)"
  by pat_completeness auto
termination
  by (relation "measure (\<lambda>(t, s). nat (t - timestamp s))")
     (auto simp: send_def get_current_time_def Let_def)

declare extend_to.simps [simp del]

text \<open>
  \<open>max((t for t in self.default_changes if t < timestamp), default=0)\<close>
\<close>

definition default_timestamp :: "(int \<times> 'a) list \<Rightarrow> int \<Rightarrow> int" where
  "default_timestamp dc t =
    (case filter (\<lambda>k. k < t) (map fst dc) of
       [] \<Rightarrow> 0
     | k # ks \<Rightarrow> fold max ks k)"

text \<open>
  The branch \<open>timestamp <= current\<close> of \<open>__getitem__\<close>. The fallback
  argument \<open>self.default_changes[default_timestamp]\<close> is evaluated before
  \<open>inner.get\<close> is called, so a missing key raises even when \<open>inner\<close>
  holds the timestamp.
\<close>

definition lookup :: "'a stream \<Rightarrow> int \<Rightarrow> error + 'a" where
  "lookup s t =
    (case map_of (default_changes s) (default_timestamp (default_changes s) t) of
       None \<Rightarrow> Inl KeyError
     | Some d \<Rightarrow> (case map_of (inner s) t of Some v \<Rightarrow> Inr v | None \<Rightarrow> Inr d))"

text \<open>
  \<open>Stream.__getitem__\<close>: the result (a value or the exception raised) and
  the stream as the call leaves it.
\<close>

function getitem :: "'a stream \<Rightarrow> int \<Rightarrow> (error + 'a) \<times> 'a stream" where
  "getitem s t =
    (if t < 0 then (Inl ValueError, s)
     else if t \<le> get_current_time s then (lookup s t, s)
     else getitem (extend_to t s) t)"
  by pat_completeness auto
termination
proof (relation "measure (\<lambda>(s, t). nat (t - timestamp s))")
  show "wf (measure (\<lambda>(s :: 'a stream, t). nat (t - timestamp s)))" by simp
next
  fix s :: "'a stream" and t :: int
  assume outside: "\<not> t < 0" "\<not> t \<le> get_current_time s"
  have reached: "t \<le> timestamp (extend_to t s')" for s' :: "'a stream"
  proof (induction t s' rule: extend_to.induct)
    case (1 t s')
    then show ?case
      by (subst extend_to.simps) (simp add: get_current_time_def)
  qed
  from outside reached [of s]
  show "((extend_to t s, t), (s, t)) \<in> measure (\<lambda>(s, t). nat (t - timestamp s))"
    by (simp add: get_current_time_def)
qed

declare getitem.simps [simp del]

text \<open>\<open>Stream.latest\<close>\<close>

definition latest :: "'a stream \<Rightarrow> (error + 'a) \<times> 'a stream" where
  "latest s = getitem s (get_current_time s)"

definition is_identity_stream :: "'a stream \<Rightarrow> bool" where
  "is_identity_stream s = identity s"

text \<open>
  \<open>Stream.__iter__\<close> and \<open>Stream.to_list\<close>: the generator reads
  \<open>self[t]\<close> for \<open>t\<close> in \<open>range(current + 1)\<close>, the bound taken once;
  the first exception ends the list.
\<close>

fun iter_from :: "'a stream \<Rightarrow> int list \<Rightarrow> (error + 'a list) \<times> 'a stream" where
  "iter_from s [] = (Inr [], s)"
| "iter_from s (t # ts) =
    (case getitem s t of
       (Inl e, s1) \<Rightarrow> (Inl e, s1)
     | (Inr v, s1) \<Rightarrow>
         (case iter_from s1 ts of
            (Inl e, s2) \<Rightarrow> (Inl e, s2)
          | (Inr vs, s2) \<Rightarrow> (Inr (v # vs), s2)))"

definition to_list :: "'a stream \<Rightarrow> (error + 'a list) \<times> 'a stream" where
  "to_list s = iter_from s [0 .. get_current_time s]"

text \<open>
  \<open>Stream.__eq__\<close> on two streams (the \<open>NotImplemented\<close> branch is for an
  argument that is no stream).
\<close>

definition stream_eq :: "'a stream \<Rightarrow> 'a stream \<Rightarrow> bool" where
  "stream_eq self other =
    (if is_identity_stream self \<and> is_identity_stream other then True
     else let self_timestamp = get_current_time self;
              other_timestamp = get_current_time other
          in if self_timestamp \<noteq> other_timestamp then False
             else inner self = inner other)"

section \<open>Handles and the store\<close>

text \<open>
  Streams are shared mutable objects: an operator's output is another
  operator's input, and a read may extend the stream it reads. The store is the
  list of all streams created so far; a \<open>StreamHandle\<close> is the position of
  its stream in the store, and constructing a stream appends it.
\<close>

type_synonym 'a heap = "'a stream list"

definition heap_getitem :: "'a heap \<Rightarrow> nat \<Rightarrow> int \<Rightarrow> (error + 'a) \<times> 'a heap" where
  "heap_getitem h a t = (case getitem (h ! a) t of (r, s') \<Rightarrow> (r, h[a := s']))"

definition heap_send :: "'a heap \<Rightarrow> nat \<Rightarrow> 'a \<Rightarrow> 'a heap" where
  "heap_send h a v = h[a := send v (h ! a)]"

section \<open>Operators\<close>

text \<open>
  \<open>step_until_fixpoint\<close>: \<open>while not operator.step(): pass\<close>. The loop
  need not end, so the result is optional; an exception raised by a step leaves
  the loop.
\<close>

partial_function (option) step_until_fixpoint ::
  "('z \<Rightarrow> (error + bool) \<times> 'z) \<Rightarrow> 'z \<Rightarrow> ((error + unit) \<times> 'z) option" where
  "step_until_fixpoint step z =
    (case step z of
       (Inl e, z') \<Rightarrow> Some (Inl e, z')
     | (Inr done, z') \<Rightarrow> if \<not> done then step_until_fixpoint step z' else Some (Inr (), z'))"

text \<open>
  \<open>step_until_fixpoint_and_return\<close>: the stream returned is the one the
  operator's output handle resolves to.
\<close>

definition step_until_fixpoint_and_return ::
  "('z \<Rightarrow> (error + bool) \<times> 'z) \<Rightarrow> ('z \<Rightarrow> nat) \<Rightarrow> 'z \<Rightarrow> ((error + nat) \<times> 'z) option" where
  "step_until_fixpoint_and_return step output_handle z =
    (case step_until_fixpoint step z of
       None \<Rightarrow> None
     | Some (Inl e, z') \<Rightarrow> Some (Inl e, z')
     | Some (Inr u, z') \<Rightarrow> Some (Inr (output_handle z'), z'))"

text \<open>
  \<open>UnaryOperator\<close>: the two handles every unary operator holds. Operators
  are modelled with their input bound (\<open>set_input\<close> has run).
\<close>

record UnaryOperator =
  input_stream_handle :: nat
  output_stream_handle :: nat

text \<open>\<open>UnaryOperator.set_input\<close>: binds the input and creates the output.\<close>

definition set_input ::
  "'a heap \<Rightarrow> nat \<Rightarrow> 'a AbelianGroupOperation option \<Rightarrow> 'a heap \<times> UnaryOperator" where
  "set_input h stream_handle output_stream_group =
    (let output = (case output_stream_group of
                     Some g \<Rightarrow> Stream_init g
                   | None \<Rightarrow> Stream_init (group (h ! stream_handle)))
     in (h @ [output],
         \<lparr>input_stream_handle = stream_handle, output_stream_handle = length h\<rparr>))"

text \<open>
  \<open>BinaryOperator\<close>: input B may be unset (\<open>None\<close>), as in
  \<open>Integrate.__init__\<close>, which binds it after the feedback delay exists.
\<close>

record BinaryOperator =
  input_stream_handle_a :: nat
  input_stream_handle_b :: "nat option"
  output_stream_handle_s :: nat

text \<open>
  \<open>Lift1\<close>. The lifted function may resolve a handle when it is applied
  (\<open>lambda x: stream.get().group().neg(x)\<close>), so it takes the store.
\<close>

record 'a Lift1 = UnaryOperator +
  f1 :: "'a heap \<Rightarrow> 'a \<Rightarrow> 'a"
  frontier :: int

definition Lift1_init ::
  "'a heap \<Rightarrow> nat \<Rightarrow> ('a heap \<Rightarrow> 'a \<Rightarrow> 'a) \<Rightarrow> 'a AbelianGroupOperation option
    \<Rightarrow> 'a heap \<times> 'a Lift1" where
  "Lift1_init h stream f output_stream_group =
    (case set_input h stream output_stream_group of
       (h1, u) \<Rightarrow>
         (h1, \<lparr>input_stream_handle = input_stream_handle u,
               output_stream_handle = output_stream_handle u,
               f1 = f, frontier = 0\<rparr>))"

text \<open>\<open>Lift1.step\<close>\<close>

fun Lift1_step :: "'a heap \<times> 'a Lift1 \<Rightarrow> (error + bool) \<times> 'a heap \<times> 'a Lift1" where
  "Lift1_step (h, self) =
    (let output_timestamp = get_current_time (h ! output_stream_handle self);
         input_timestamp = get_current_time (h ! input_stream_handle self);
         join = max (max input_timestamp output_timestamp) (frontier self);
         meet = min (min input_timestamp output_timestamp) (frontier self)
     in if join = meet then (Inr True, h, self)
        else
          let next_frontier = frontier self + 1
          in (case heap_getitem h (input_stream_handle self) next_frontier of
                (Inl e, h1) \<Rightarrow> (Inl e, h1, self)
              | (Inr v, h1) \<Rightarrow>
                  (Inr False,
                   heap_send h1 (output_stream_handle self) (f1 self h1 v),
                   self\<lparr>frontier := next_frontier\<rparr>)))"

text \<open>
  \<open>LiftedGroupNegate\<close>: a \<open>Lift1\<close> of the group's negation, the group
  taken from the input stream each time the function is applied.
\<close>

definition LiftedGroupNegate_init :: "'a heap \<Rightarrow> nat \<Rightarrow> 'a heap \<times> 'a Lift1" where
  "LiftedGroupNegate_init h stream =
    Lift1_init h stream (\<lambda>h' x. neg (group (h' ! stream)) x) None"

text \<open>\<open>Lift2\<close>\<close>

record 'a Lift2 = BinaryOperator +
  f2 :: "'a heap \<Rightarrow> 'a \<Rightarrow> 'a \<Rightarrow> 'a"
  frontier_a :: int
  frontier_b :: int

text \<open>
  \<open>Lift2.__init__\<close> with \<open>BinaryOperator.__init__\<close>, input A given:
  \<open>set_input_a\<close> creates an output in the group of input A, and an explicit
  output group creates a second stream that replaces it.
\<close>

definition Lift2_init ::
  "'a heap \<Rightarrow> nat \<Rightarrow> nat option \<Rightarrow> ('a heap \<Rightarrow> 'a \<Rightarrow> 'a \<Rightarrow> 'a)
    \<Rightarrow> 'a AbelianGroupOperation option \<Rightarrow> 'a heap \<times> 'a Lift2" where
  "Lift2_init h stream_a stream_b f output_stream_group =
    (let h1 = h @ [Stream_init (group (h ! stream_a))];
         out1 = length h;
         (h2, out2) = (case output_stream_group of
                         None \<Rightarrow> (h1, out1)
                       | Some g \<Rightarrow> (h1 @ [Stream_init g], length h1))
     in (h2, \<lparr>input_stream_handle_a = stream_a, input_stream_handle_b = stream_b,
               output_stream_handle_s = out2,
               f2 = f, frontier_a = 0, frontier_b = 0\<rparr>))"

text \<open>\<open>BinaryOperator.set_input_b\<close>\<close>

definition set_input_b :: "'a Lift2 \<Rightarrow> nat \<Rightarrow> 'a Lift2" where
  "set_input_b self stream_handle_b = self\<lparr>input_stream_handle_b := Some stream_handle_b\<rparr>"

text \<open>\<open>Lift2.step\<close>\<close>

fun Lift2_step :: "'a heap \<times> 'a Lift2 \<Rightarrow> (error + bool) \<times> 'a heap \<times> 'a Lift2" where
  "Lift2_step (h, self) =
    (let a_timestamp = get_current_time (h ! input_stream_handle_a self)
     in case input_stream_handle_b self of
          None \<Rightarrow> (Inl AttributeError, h, self)
        | Some input_b \<Rightarrow>
           (let b_timestamp = get_current_time (h ! input_b);
                output_timestamp = get_current_time (h ! output_stream_handle_s self);
                join = max (max (max (max a_timestamp b_timestamp) output_timestamp)
                         (frontier_a self)) (frontier_b self);
                meet = min (min (min (min a_timestamp b_timestamp) output_timestamp)
                         (frontier_a self)) (frontier_b self)
            in if join = meet then (Inr True, h, self)
               else
                 let next_frontier_a = frontier_a self + 1;
                     next_frontier_b = frontier_b self + 1
                 in (case heap_getitem h (input_stream_handle_a self) next_frontier_a of
                       (Inl e, h1) \<Rightarrow> (Inl e, h1, self)
                     | (Inr a, h1) \<Rightarrow>
                        (case heap_getitem h1 input_b next_frontier_b of
                           (Inl e, h2) \<Rightarrow> (Inl e, h2, self)
                         | (Inr b, h2) \<Rightarrow>
                            (let application = f2 self h2 a b
                             in (Inr False,
                                 heap_send h2 (output_stream_handle_s self) application,
                                 self\<lparr>frontier_a := next_frontier_a,
                                      frontier_b := next_frontier_b\<rparr>))))))"

text \<open>\<open>LiftedGroupAdd\<close>\<close>

definition LiftedGroupAdd_init :: "'a heap \<Rightarrow> nat \<Rightarrow> nat option \<Rightarrow> 'a heap \<times> 'a Lift2" where
  "LiftedGroupAdd_init h stream_a stream_b =
    Lift2_init h stream_a stream_b (\<lambda>h' x y. add (group (h' ! stream_a)) x y) None"

text \<open>\<open>Delay\<close> (\<open>linear.py\<close>): a unary operator with no state of its own.\<close>

type_synonym Delay = UnaryOperator

definition Delay_init :: "'a heap \<Rightarrow> nat \<Rightarrow> 'a heap \<times> Delay" where
  "Delay_init h stream = set_input h stream None"

text \<open>\<open>Delay.step\<close>\<close>

fun Delay_step :: "'a heap \<times> Delay \<Rightarrow> (error + bool) \<times> 'a heap \<times> Delay" where
  "Delay_step (h, self) =
    (let output_timestamp = get_current_time (h ! output_stream_handle self);
         input_timestamp = get_current_time (h ! input_stream_handle self)
     in if output_timestamp \<le> input_timestamp
        then (case heap_getitem h (input_stream_handle self) output_timestamp of
                (Inl e, h1) \<Rightarrow> (Inl e, h1, self)
              | (Inr v, h1) \<Rightarrow> (Inr False, heap_send h1 (output_stream_handle self) v, self))
        else (Inr True, h, self))"

text \<open>\<open>Differentiate\<close>: delay, then negate, then add to the input.\<close>

record 'a Differentiate = UnaryOperator +
  delayed_stream :: Delay
  delayed_negated_stream :: "'a Lift1"
  differentiation_stream :: "'a Lift2"

definition Differentiate_init :: "'a heap \<Rightarrow> nat \<Rightarrow> 'a heap \<times> 'a Differentiate" where
  "Differentiate_init h stream =
    (let (h1, delayed) = Delay_init h stream;
         (h2, negated) = LiftedGroupNegate_init h1 (output_stream_handle delayed);
         (h3, differentiation) =
            LiftedGroupAdd_init h2 stream (Some (output_stream_handle negated))
     in (h3, \<lparr>input_stream_handle = stream,
               output_stream_handle = output_stream_handle_s differentiation,
               delayed_stream = delayed,
               delayed_negated_stream = negated,
               differentiation_stream = differentiation\<rparr>))"

text \<open>
  \<open>Differentiate.step\<close>: the three sub-steps in order, their results dropped;
  an exception in one of them ends the call.
\<close>

fun Differentiate_step ::
  "'a heap \<times> 'a Differentiate \<Rightarrow> (error + bool) \<times> 'a heap \<times> 'a Differentiate" where
  "Differentiate_step (h, self) =
    (case Delay_step (h, delayed_stream self) of
       (Inl e, h1, d) \<Rightarrow> (Inl e, h1, self\<lparr>delayed_stream := d\<rparr>)
     | (Inr r1, h1, d) \<Rightarrow>
        (let self1 = self\<lparr>delayed_stream := d\<rparr>
         in case Lift1_step (h1, delayed_negated_stream self1) of
              (Inl e, h2, n) \<Rightarrow> (Inl e, h2, self1\<lparr>delayed_negated_stream := n\<rparr>)
            | (Inr r2, h2, n) \<Rightarrow>
               (let self2 = self1\<lparr>delayed_negated_stream := n\<rparr>
                in case Lift2_step (h2, differentiation_stream self2) of
                     (Inl e, h3, a) \<Rightarrow> (Inl e, h3, self2\<lparr>differentiation_stream := a\<rparr>)
                   | (Inr r3, h3, a) \<Rightarrow>
                      (Inr (get_current_time (h3 ! output_stream_handle self2)
                            = get_current_time (h3 ! input_stream_handle self2)),
                       h3, self2\<lparr>differentiation_stream := a\<rparr>))))"

text \<open>
  \<open>Integrate\<close>: an adder whose second input is the delay of its own output.
\<close>

record 'a Integrate = UnaryOperator +
  integration_stream :: "'a Lift2"
  integrate_delayed_stream :: Delay

definition Integrate_init :: "'a heap \<Rightarrow> nat \<Rightarrow> 'a heap \<times> 'a Integrate" where
  "Integrate_init h stream =
    (let (h1, integration) = LiftedGroupAdd_init h stream None;
         (h2, delayed) = Delay_init h1 (output_stream_handle_s integration);
         integration1 = set_input_b integration (output_stream_handle delayed)
     in (h2, \<lparr>input_stream_handle = stream,
               output_stream_handle = output_stream_handle_s integration1,
               integration_stream = integration1,
               integrate_delayed_stream = delayed\<rparr>))"

text \<open>\<open>Integrate.step\<close>\<close>

fun Integrate_step ::
  "'a heap \<times> 'a Integrate \<Rightarrow> (error + bool) \<times> 'a heap \<times> 'a Integrate" where
  "Integrate_step (h, self) =
    (case Delay_step (h, integrate_delayed_stream self) of
       (Inl e, h1, d) \<Rightarrow> (Inl e, h1, self\<lparr>integrate_delayed_stream := d\<rparr>)
     | (Inr r1, h1, d) \<Rightarrow>
        (let self1 = self\<lparr>integrate_delayed_stream := d\<rparr>
         in case Lift2_step (h1, integration_stream self1) of
              (Inl e, h2, a) \<Rightarrow> (Inl e, h2, self1\<lparr>integration_stream := a\<rparr>)
            | (Inr r2, h2, a) \<Rightarrow>
               (Inr (get_current_time (h2 ! output_stream_handle self1)
                     = get_current_time (h2 ! input_stream_handle self1)),
                h2, self1\<lparr>integration_stream := a\<rparr>)))"

text \<open>
  \<open>step_until_fixpoint_set_new_default_then_return\<close>, for an operator given
  by its step function and its output handle: drain, read the latest value of
  the output, call \<open>set_default\<close> with it, return the output.
\<close>

definition step_until_fixpoint_set_new_default_then_return ::
  "('a heap \<times> 'op \<Rightarrow> (error + bool) \<times> 'a heap \<times> 'op) \<Rightarrow> ('op \<Rightarrow> nat)
    \<Rightarrow> 'a heap \<times> 'op \<Rightarrow> ((error + nat) \<times> 'a heap \<times> 'op) option" where
  "step_until_fixpoint_set_new_default_then_return step output_handle z =
    (case step_until_fixpoint step z of
       None \<Rightarrow> None
     | Some (Inl e, z') \<Rightarrow> Some (Inl e, z')
     | Some (Inr u, h, operator) \<Rightarrow>
        (let out = output_handle operator
         in case latest (h ! out) of
              (Inl e, s1) \<Rightarrow> Some (Inl e, h[out := s1], operator)
            | (Inr latest_value, s1) \<Rightarrow>
                Some (Inr out, h[out := set_default latest_value s1], operator)))"

text \<open>
  \<open>StreamAddition.add\<close>: the arguments are the handles of \<open>a\<close> and
  \<open>b\<close>; the result is the handle of the sum.
\<close>

definition StreamAddition_add ::
  "'a heap \<Rightarrow> nat \<Rightarrow> nat \<Rightarrow> ((error + nat) \<times> 'a heap) option" where
  "StreamAddition_add h a b =
    (let (h1, lifted_group_add) = LiftedGroupAdd_init h a (Some b)
     in case step_until_fixpoint_and_return Lift2_step (\<lambda>(h', operator). output_stream_handle_s operator)
               (h1, lifted_group_add) of
          None \<Rightarrow> None
        | Some (Inl e, h2, operator) \<Rightarrow> Some (Inl e, h2)
        | Some (Inr out, h2, operator) \<Rightarrow>
           (let h3 = (if is_identity_stream (h2 ! a)
                      then h2[out := (h2 ! out)\<lparr>default_val := default_val (h2 ! b)\<rparr>]
                      else h2);
                h4 = (if is_identity_stream (h3 ! b)
                      then h3[out := (h3 ! out)\<lparr>default_val := default_val (h3 ! a)\<rparr>]
                      else h3)
            in Some (Inr out, h4)))"

section \<open>Streams as their history\<close>

text \<open>
  A stream is created by \<open>Stream.__init__\<close> and changed by \<open>send\<close> only
  (\<open>set_default\<close> changes nothing), so a stream is determined by its group
  and the values sent to it after construction: \<open>sends g vs\<close> is that stream.
\<close>

definition sends :: "'a AbelianGroupOperation \<Rightarrow> 'a list \<Rightarrow> 'a stream" where
  "sends g vs = foldl (\<lambda>s v. send v s) (Stream_init g) vs"

text \<open>The values \<open>vs\<close> followed by as many \<open>e\<close> as it takes to reach length \<open>m\<close>.\<close>

definition padded :: "'a \<Rightarrow> nat \<Rightarrow> 'a list \<Rightarrow> 'a list" where
  "padded e m vs = vs @ replicate (m - length vs) e"

text \<open>
  Modelled from the spec: the integer group of \<open>dbspy.core\<close>, which is not
  among the sources; the spec's scenarios use "integers under +, negation,
  identity 0".
\<close>

definition IntegerAddition :: "int AbelianGroupOperation" where
  "IntegerAddition = \<lparr>add = (+), neg = uminus, identity_elem = 0\<rparr>"

text \<open>
  Modelled from the spec: the contract of \<open>AbelianGroupOperation\<close>
  (\<open>dbspy.core\<close> is not among the sources): the operations "satisfy closure,
  associativity, identity, and inverse laws exactly", and the group is Abelian.
\<close>

definition abelian_group :: "'a AbelianGroupOperation \<Rightarrow> bool" where
  "abelian_group g \<longleftrightarrow>
     (\<forall>x y z. add g (add g x y) z = add g x (add g y z))
     \<and> (\<forall>x y. add g x y = add g y x)
     \<and> (\<forall>x. add g x (identity_elem g) = x)
     \<and> (\<forall>x. add g x (neg g x) = identity_elem g)"

text \<open>
  The values a drained \<open>Differentiate\<close> sends to its output for an input
  with history \<open>vs\<close>: at timestamp \<open>j + 1\<close> the input's value there plus the
  negation of the input's value at \<open>j\<close> (the identity at \<open>0\<close>).
\<close>

definition differences :: "'a AbelianGroupOperation \<Rightarrow> 'a list \<Rightarrow> 'a list" where
  "differences g vs =
     map (\<lambda>j. add g (vs ! j) (neg g ((identity_elem g # vs) ! j))) [0..<length vs]"

text \<open>
  The values a drained \<open>Integrate\<close> sends to its output: each input value
  added to the previous output, starting from \<open>acc\<close>.
\<close>

fun running_sums :: "'a AbelianGroupOperation \<Rightarrow> 'a \<Rightarrow> 'a list \<Rightarrow> 'a list" where
  "running_sums g acc [] = []"
| "running_sums g acc (v # vs) = add g v acc # running_sums g (add g v acc) vs"


text \<open>
  The \<open>Differentiate\<close> object over input \<open>i\<close> whose delay, negation and
  adder write to \<open>d\<close>, \<open>n\<close> and \<open>out\<close>, after \<open>k\<close> steps; and the
  \<open>Integrate\<close> object whose adder writes to \<open>out\<close> and whose feedback delay
  writes to \<open>d\<close>.
\<close>

definition Differentiate_state :: "nat \<Rightarrow> nat \<Rightarrow> nat \<Rightarrow> nat \<Rightarrow> nat \<Rightarrow> 'a Differentiate" where
  "Differentiate_state i d n out k =
     \<lparr>input_stream_handle = i, output_stream_handle = out,
      delayed_stream = \<lparr>input_stream_handle = i, output_stream_handle = d\<rparr>,
      delayed_negated_stream =
        \<lparr>input_stream_handle = d, output_stream_handle = n,
         f1 = (\<lambda>h' x. neg (group (h' ! d)) x), frontier = int k\<rparr>,
      differentiation_stream =
        \<lparr>input_stream_handle_a = i, input_stream_handle_b = Some n,
         output_stream_handle_s = out,
         f2 = (\<lambda>h' x y. add (group (h' ! i)) x y),
         frontier_a = int k, frontier_b = int k\<rparr>\<rparr>"

definition Integrate_state :: "nat \<Rightarrow> nat \<Rightarrow> nat \<Rightarrow> nat \<Rightarrow> 'a Integrate" where
  "Integrate_state i out d k =
     \<lparr>input_stream_handle = i, output_stream_handle = out,
      integration_stream =
        \<lparr>input_stream_handle_a = i, input_stream_handle_b = Some d,
         output_stream_handle_s = out,
         f2 = (\<lambda>h' x y. add (group (h' ! i)) x y),
         frontier_a = int k, frontier_b = int k\<rparr>,
      integrate_delayed_stream = \<lparr>input_stream_handle = out, output_stream_handle = d\<rparr>\<rparr>"

text \<open>
  The two round trips of the specification, as a caller writes them: build the
  first operator over the stream at \<open>i\<close>, drain it, build the second over
  the first one's output, drain it, and return the second one's output.
\<close>

definition Integrate_of_Differentiate ::
  "'a heap \<Rightarrow> nat \<Rightarrow> ((error + nat) \<times> 'a heap) option" where
  "Integrate_of_Differentiate h i =
    (case step_until_fixpoint_and_return Differentiate_step
            (\<lambda>(h', operator). output_stream_handle operator) (Differentiate_init h i) of
       None \<Rightarrow> None
     | Some (Inl e, h1, operator) \<Rightarrow> Some (Inl e, h1)
     | Some (Inr d, h1, operator) \<Rightarrow>
        (case step_until_fixpoint_and_return Integrate_step
                (\<lambda>(h', operator). output_stream_handle operator) (Integrate_init h1 d) of
           None \<Rightarrow> None
         | Some (Inl e, h2, operator) \<Rightarrow> Some (Inl e, h2)
         | Some (Inr r, h2, operator) \<Rightarrow> Some (Inr r, h2)))"

definition Differentiate_of_Integrate ::
  "'a heap \<Rightarrow> nat \<Rightarrow> ((error + nat) \<times> 'a heap) option" where
  "Differentiate_of_Integrate h i =
    (case step_until_fixpoint_and_return Integrate_step
            (\<lambda>(h', operator). output_stream_handle operator) (Integrate_init h i) of
       None \<Rightarrow> None
     | Some (Inl e, h1, operator) \<Rightarrow> Some (Inl e, h1)
     | Some (Inr d, h1, operator) \<Rightarrow>
        (case step_until_fixpoint_and_return Differentiate_step
                (\<lambda>(h', operator). output_stream_handle operator) (Differentiate_init h1 d) of
           None \<Rightarrow> None
         | Some (Inl e, h2, operator) \<Rightarrow> Some (Inl e, h2)
         | Some (Inr r, h2, operator) \<Rightarrow> Some (Inr r, h2)))"

text \<open>
  The \<open>LiftedGroupAdd\<close> object over inputs \<open>a\<close> and \<open>b\<close> writing to
  \<open>out\<close>, after \<open>k\<close> steps; and the values it sends when drained: the
  elementwise sums of the two histories, the shorter one continued with its
  default.
\<close>

definition LiftedGroupAdd_state :: "nat \<Rightarrow> nat \<Rightarrow> nat \<Rightarrow> nat \<Rightarrow> 'a Lift2" where
  "LiftedGroupAdd_state a b out k =
     \<lparr>input_stream_handle_a = a, input_stream_handle_b = Some b,
      output_stream_handle_s = out,
      f2 = (\<lambda>h' x y. add (group (h' ! a)) x y),
      frontier_a = int k, frontier_b = int k\<rparr>"

definition added :: "'a AbelianGroupOperation \<Rightarrow> 'a \<Rightarrow> 'a list \<Rightarrow> 'a list \<Rightarrow> 'a list" where
  "added g eb as bs =
     (let m = max (length as) (length bs)
      in map (\<lambda>j. add g (padded (identity_elem g) m as ! j) (padded eb m bs ! j)) [0..<m])"

section \<open>Streams of streams\<close>

text \<open>
  \<open>StreamAddition\<close> makes \<open>Stream\<close> a group-valued type, so the element
  type of a stream may itself be \<open>Stream\<close>. The elements of such a stream are
  stream objects: they are compared by \<open>Stream.__eq__\<close>, the group operations
  on them drain operators (they create streams and may extend their
  arguments), and \<open>identity()\<close> creates a new stream at every call. The
  classes below are the classes above at that element type. An element is the
  handle of a stream in the store of element streams; the streams of streams
  live in a second store.
\<close>

record 'a stream2 =
  timestamp2 :: int
  inner2 :: "(int \<times> nat) list"
  group_op2 :: "'a AbelianGroupOperation"
  identity2 :: bool
  default_val2 :: nat
  default_changes2 :: "(int \<times> nat) list"

type_synonym 'a store2 = "'a heap \<times> 'a stream2 list"

text \<open>
  \<open>StreamAddition.identity\<close> and \<open>StreamAddition.neg\<close> (\<open>add\<close> is above);
  \<open>group_op2\<close> holds the \<open>group\<close> attribute of the \<open>StreamAddition\<close>.
\<close>

definition StreamAddition_identity :: "'a heap \<Rightarrow> 'a AbelianGroupOperation \<Rightarrow> 'a heap \<times> nat" where
  "StreamAddition_identity h g = (h @ [Stream_init g], length h)"

definition StreamAddition_neg ::
  "'a heap \<Rightarrow> nat \<Rightarrow> ((error + nat) \<times> 'a heap) option" where
  "StreamAddition_neg h a =
    (let (h1, lifted_group_neg) = LiftedGroupNegate_init h a
     in case step_until_fixpoint_and_return Lift1_step (\<lambda>(h', operator). output_stream_handle operator)
               (h1, lifted_group_neg) of
          None \<Rightarrow> None
        | Some (Inl e, h2, operator) \<Rightarrow> Some (Inl e, h2)
        | Some (Inr out, h2, operator) \<Rightarrow> Some (Inr out, h2))"

text \<open>\<open>Stream.send\<close>: \<open>element != self.default\<close> is the negation of \<open>Stream.__eq__\<close>.\<close>

definition send2 :: "'a heap \<Rightarrow> nat \<Rightarrow> 'a stream2 \<Rightarrow> 'a stream2" where
  "send2 h element s =
    (let s1 = (if \<not> stream_eq (h ! element) (h ! default_val2 s)
               then s\<lparr>inner2 := AList.update (timestamp2 s + 1) element (inner2 s),
                      identity2 := False\<rparr>
               else s)
     in s1\<lparr>timestamp2 := timestamp2 s1 + 1\<rparr>)"

text \<open>
  \<open>Stream.__init__\<close>: three calls of \<open>group_op.identity()\<close>, each a new
  element stream, for the default, for \<open>default_changes[0]\<close> and for the first
  \<open>send\<close>.
\<close>

definition Stream2_init :: "'a heap \<Rightarrow> 'a AbelianGroupOperation \<Rightarrow> 'a heap \<times> 'a stream2" where
  "Stream2_init h g =
    (let (h1, d) = StreamAddition_identity h g;
         (h2, c) = StreamAddition_identity h1 g;
         (h3, e) = StreamAddition_identity h2 g
     in (h3,
         send2 h3 e
           \<lparr>timestamp2 = - 1, inner2 = [], group_op2 = g, identity2 = True,
            default_val2 = d, default_changes2 = AList.update 0 c []\<rparr>))"

function extend_to2 :: "'a heap \<Rightarrow> int \<Rightarrow> 'a stream2 \<Rightarrow> 'a stream2" where
  "extend_to2 h t s =
    (if t > timestamp2 s then extend_to2 h t (send2 h (default_val2 s) s) else s)"
  by pat_completeness auto
termination
  by (relation "measure (\<lambda>(h, t, s). nat (t - timestamp2 s))")
     (auto simp: send2_def Let_def)

declare extend_to2.simps [simp del]

definition lookup2 :: "'a stream2 \<Rightarrow> int \<Rightarrow> error + nat" where
  "lookup2 s t =
    (case map_of (default_changes2 s) (default_timestamp (default_changes2 s) t) of
       None \<Rightarrow> Inl KeyError
     | Some d \<Rightarrow> (case map_of (inner2 s) t of Some v \<Rightarrow> Inr v | None \<Rightarrow> Inr d))"

function getitem2 :: "'a heap \<Rightarrow> 'a stream2 \<Rightarrow> int \<Rightarrow> (error + nat) \<times> 'a stream2" where
  "getitem2 h s t =
    (if t < 0 then (Inl ValueError, s)
     else if t \<le> timestamp2 s then (lookup2 s t, s)
     else getitem2 h (extend_to2 h t s) t)"
  by pat_completeness auto
termination
proof (relation "measure (\<lambda>(h, s, t). nat (t - timestamp2 s))")
  show "wf (measure (\<lambda>(h :: 'a heap, s :: 'a stream2, t). nat (t - timestamp2 s)))" by simp
next
  fix h :: "'a heap" and s :: "'a stream2" and t :: int
  assume outside: "\<not> t < 0" "\<not> t \<le> timestamp2 s"
  have reached: "t \<le> timestamp2 (extend_to2 h t s')" for s' :: "'a stream2"
  proof (induction h t s' rule: extend_to2.induct)
    case (1 h t s')
    then show ?case
      by (subst extend_to2.simps) simp
  qed
  from outside reached [of s]
  show "((h, extend_to2 h t s, t), (h, s, t)) \<in> measure (\<lambda>(h, s, t). nat (t - timestamp2 s))"
    by simp
qed

declare getitem2.simps [simp del]

text \<open>
  \<open>Stream.__eq__\<close>; \<open>self.inner == other.inner\<close> compares two
  \<open>OrderedDict\<close>s: the same keys in the same order, and at each key values that
  are the same object or equal by \<open>Stream.__eq__\<close>.
\<close>

definition inner_eq2 :: "'a heap \<Rightarrow> (int \<times> nat) list \<Rightarrow> (int \<times> nat) list \<Rightarrow> bool" where
  "inner_eq2 h xs ys =
    (length xs = length ys
     \<and> list_all (\<lambda>(k, v). case map_of ys k of
                              None \<Rightarrow> False
                            | Some v' \<Rightarrow> v = v' \<or> stream_eq (h ! v) (h ! v')) xs
     \<and> map fst xs = map fst ys)"

definition stream_eq2 :: "'a heap \<Rightarrow> 'a stream2 \<Rightarrow> 'a stream2 \<Rightarrow> bool" where
  "stream_eq2 h self other =
    (if identity2 self \<and> identity2 other then True
     else let self_timestamp = timestamp2 self;
              other_timestamp = timestamp2 other
          in if self_timestamp \<noteq> other_timestamp then False
             else inner_eq2 h (inner2 self) (inner2 other))"

definition store2_getitem :: "'a store2 \<Rightarrow> nat \<Rightarrow> int \<Rightarrow> (error + nat) \<times> 'a store2" where
  "store2_getitem st a t =
    (case st of (h, hh) \<Rightarrow>
       (case getitem2 h (hh ! a) t of (r, s') \<Rightarrow> (r, (h, hh[a := s']))))"

definition store2_send :: "'a store2 \<Rightarrow> nat \<Rightarrow> nat \<Rightarrow> 'a store2" where
  "store2_send st a v = (case st of (h, hh) \<Rightarrow> (h, hh[a := send2 h v (hh ! a)]))"

text \<open>
  \<open>step_until_fixpoint\<close> for operators whose step may itself not return (a
  step that applies \<open>StreamAddition.add\<close> drains an operator).
\<close>

partial_function (option) step_until_fixpoint2 ::
  "('z \<Rightarrow> ((error + bool) \<times> 'z) option) \<Rightarrow> 'z \<Rightarrow> ((error + unit) \<times> 'z) option" where
  "step_until_fixpoint2 step z =
    (case step z of
       None \<Rightarrow> None
     | Some (Inl e, z') \<Rightarrow> Some (Inl e, z')
     | Some (Inr done, z') \<Rightarrow>
         if \<not> done then step_until_fixpoint2 step z' else Some (Inr (), z'))"

declare step_until_fixpoint.simps [code]
declare step_until_fixpoint2.simps [code]

text \<open>\<open>UnaryOperator.set_input\<close>\<close>

definition set_input2 ::
  "'a store2 \<Rightarrow> nat \<Rightarrow> 'a AbelianGroupOperation option \<Rightarrow> 'a store2 \<times> UnaryOperator" where
  "set_input2 st stream_handle output_stream_group =
    (case st of (h, hh) \<Rightarrow>
       (let (h1, output) = (case output_stream_group of
                              Some g \<Rightarrow> Stream2_init h g
                            | None \<Rightarrow> Stream2_init h (group_op2 (hh ! stream_handle)))
        in ((h1, hh @ [output]),
            \<lparr>input_stream_handle = stream_handle, output_stream_handle = length hh\<rparr>)))"

text \<open>\<open>Delay\<close>\<close>

definition Delay2_init :: "'a store2 \<Rightarrow> nat \<Rightarrow> 'a store2 \<times> Delay" where
  "Delay2_init st stream = set_input2 st stream None"

fun Delay2_step :: "'a store2 \<times> Delay \<Rightarrow> (error + bool) \<times> 'a store2 \<times> Delay" where
  "Delay2_step (st, self) =
    (let output_timestamp = timestamp2 (snd st ! output_stream_handle self);
         input_timestamp = timestamp2 (snd st ! input_stream_handle self)
     in if output_timestamp \<le> input_timestamp
        then (case store2_getitem st (input_stream_handle self) output_timestamp of
                (Inl e, st1) \<Rightarrow> (Inl e, st1, self)
              | (Inr v, st1) \<Rightarrow>
                  (Inr False, store2_send st1 (output_stream_handle self) v, self))
        else (Inr True, st, self))"

text \<open>
  \<open>Lift1\<close> and \<open>Lift2\<close>: the lifted function works on element streams, so
  it takes the store of element streams and returns it changed, raises, or
  does not return.
\<close>

record 'a Lift1_2 = UnaryOperator +
  f1_2 :: "'a heap \<Rightarrow> nat \<Rightarrow> ((error + nat) \<times> 'a heap) option"
  frontier2 :: int

record 'a Lift2_2 = BinaryOperator +
  f2_2 :: "'a heap \<Rightarrow> nat \<Rightarrow> nat \<Rightarrow> ((error + nat) \<times> 'a heap) option"
  frontier_a2 :: int
  frontier_b2 :: int

fun Lift1_2_step ::
  "'a store2 \<times> 'a Lift1_2 \<Rightarrow> ((error + bool) \<times> 'a store2 \<times> 'a Lift1_2) option" where
  "Lift1_2_step (st, self) =
    (let output_timestamp = timestamp2 (snd st ! output_stream_handle self);
         input_timestamp = timestamp2 (snd st ! input_stream_handle self);
         join = max (max input_timestamp output_timestamp) (frontier2 self);
         meet = min (min input_timestamp output_timestamp) (frontier2 self)
     in if join = meet then Some (Inr True, st, self)
        else
          let next_frontier = frontier2 self + 1
          in (case store2_getitem st (input_stream_handle self) next_frontier of
                (Inl e, st1) \<Rightarrow> Some (Inl e, st1, self)
              | (Inr v, (h1, hh1)) \<Rightarrow>
                  (case f1_2 self h1 v of
                     None \<Rightarrow> None
                   | Some (Inl e, h2) \<Rightarrow> Some (Inl e, (h2, hh1), self)
                   | Some (Inr r, h2) \<Rightarrow>
                       Some (Inr False,
                             store2_send (h2, hh1) (output_stream_handle self) r,
                             self\<lparr>frontier2 := next_frontier\<rparr>))))"

fun Lift2_2_step ::
  "'a store2 \<times> 'a Lift2_2 \<Rightarrow> ((error + bool) \<times> 'a store2 \<times> 'a Lift2_2) option" where
  "Lift2_2_step (st, self) =
    (let a_timestamp = timestamp2 (snd st ! input_stream_handle_a self)
     in case input_stream_handle_b self of
          None \<Rightarrow> Some (Inl AttributeError, st, self)
        | Some input_b \<Rightarrow>
           (let b_timestamp = timestamp2 (snd st ! input_b);
                output_timestamp = timestamp2 (snd st ! output_stream_handle_s self);
                join = max (max (max (max a_timestamp b_timestamp) output_timestamp)
                         (frontier_a2 self)) (frontier_b2 self);
                meet = min (min (min (min a_timestamp b_timestamp) output_timestamp)
                         (frontier_a2 self)) (frontier_b2 self)
            in if join = meet then Some (Inr True, st, self)
               else
                 let next_frontier_a = frontier_a2 self + 1;
                     next_frontier_b = frontier_b2 self + 1
                 in (case store2_getitem st (input_stream_handle_a self) next_frontier_a of
                       (Inl e, st1) \<Rightarrow> Some (Inl e, st1, self)
                     | (Inr a, st1) \<Rightarrow>
                        (case store2_getitem st1 input_b next_frontier_b of
                           (Inl e, st2) \<Rightarrow> Some (Inl e, st2, self)
                         | (Inr b, (h2, hh2)) \<Rightarrow>
                            (case f2_2 self h2 a b of
                               None \<Rightarrow> None
                             | Some (Inl e, h3) \<Rightarrow> Some (Inl e, (h3, hh2), self)
                             | Some (Inr application, h3) \<Rightarrow>
                                 Some (Inr False,
                                       store2_send (h3, hh2) (output_stream_handle_s self)
                                         application,
                                       self\<lparr>frontier_a2 := next_frontier_a,
                                            frontier_b2 := next_frontier_b\<rparr>))))))"

text \<open>
  \<open>LiftedGroupNegate\<close> and \<open>LiftedGroupAdd\<close>: the group of the input stream
  is a \<open>StreamAddition\<close>, so the lifted functions are \<open>StreamAddition.neg\<close>
  and \<open>StreamAddition.add\<close>.
\<close>

definition LiftedGroupNegate2_init :: "'a store2 \<Rightarrow> nat \<Rightarrow> 'a store2 \<times> 'a Lift1_2" where
  "LiftedGroupNegate2_init st stream =
    (case set_input2 st stream None of
       (st1, u) \<Rightarrow>
         (st1, \<lparr>input_stream_handle = input_stream_handle u,
                output_stream_handle = output_stream_handle u,
                f1_2 = (\<lambda>h x. StreamAddition_neg h x), frontier2 = 0\<rparr>))"

definition LiftedGroupAdd2_init :: "'a store2 \<Rightarrow> nat \<Rightarrow> nat option \<Rightarrow> 'a store2 \<times> 'a Lift2_2" where
  "LiftedGroupAdd2_init st stream_a stream_b =
    (case st of (h, hh) \<Rightarrow>
       (let (h1, output) = Stream2_init h (group_op2 (hh ! stream_a))
        in ((h1, hh @ [output]),
            \<lparr>input_stream_handle_a = stream_a, input_stream_handle_b = stream_b,
             output_stream_handle_s = length hh,
             f2_2 = (\<lambda>h x y. StreamAddition_add h x y),
             frontier_a2 = 0, frontier_b2 = 0\<rparr>)))"

text \<open>\<open>Differentiate\<close> and \<open>Integrate\<close>\<close>

record 'a Differentiate2 = UnaryOperator +
  delayed_stream2 :: Delay
  delayed_negated_stream2 :: "'a Lift1_2"
  differentiation_stream2 :: "'a Lift2_2"

definition Differentiate2_init :: "'a store2 \<Rightarrow> nat \<Rightarrow> 'a store2 \<times> 'a Differentiate2" where
  "Differentiate2_init st stream =
    (let (st1, delayed) = Delay2_init st stream;
         (st2, negated) = LiftedGroupNegate2_init st1 (output_stream_handle delayed);
         (st3, differentiation) =
            LiftedGroupAdd2_init st2 stream (Some (output_stream_handle negated))
     in (st3, \<lparr>input_stream_handle = stream,
                output_stream_handle = output_stream_handle_s differentiation,
                delayed_stream2 = delayed,
                delayed_negated_stream2 = negated,
                differentiation_stream2 = differentiation\<rparr>))"

fun Differentiate2_step ::
  "'a store2 \<times> 'a Differentiate2
    \<Rightarrow> ((error + bool) \<times> 'a store2 \<times> 'a Differentiate2) option" where
  "Differentiate2_step (st, self) =
    (case Delay2_step (st, delayed_stream2 self) of
       (Inl e, st1, d) \<Rightarrow> Some (Inl e, st1, self\<lparr>delayed_stream2 := d\<rparr>)
     | (Inr r1, st1, d) \<Rightarrow>
        (let self1 = self\<lparr>delayed_stream2 := d\<rparr>
         in case Lift1_2_step (st1, delayed_negated_stream2 self1) of
              None \<Rightarrow> None
            | Some (Inl e, st2, n) \<Rightarrow> Some (Inl e, st2, self1\<lparr>delayed_negated_stream2 := n\<rparr>)
            | Some (Inr r2, st2, n) \<Rightarrow>
               (let self2 = self1\<lparr>delayed_negated_stream2 := n\<rparr>
                in case Lift2_2_step (st2, differentiation_stream2 self2) of
                     None \<Rightarrow> None
                   | Some (Inl e, st3, a) \<Rightarrow>
                       Some (Inl e, st3, self2\<lparr>differentiation_stream2 := a\<rparr>)
                   | Some (Inr r3, st3, a) \<Rightarrow>
                       Some (Inr (timestamp2 (snd st3 ! output_stream_handle self2)
                                  = timestamp2 (snd st3 ! input_stream_handle self2)),
                             st3, self2\<lparr>differentiation_stream2 := a\<rparr>))))"

record 'a Integrate2 = UnaryOperator +
  integration_stream2 :: "'a Lift2_2"
  integrate_delayed_stream2 :: Delay

definition Integrate2_init :: "'a store2 \<Rightarrow> nat \<Rightarrow> 'a store2 \<times> 'a Integrate2" where
  "Integrate2_init st stream =
    (let (st1, integration) = LiftedGroupAdd2_init st stream None;
         (st2, delayed) = Delay2_init st1 (output_stream_handle_s integration);
         integration1 =
           integration\<lparr>input_stream_handle_b := Some (output_stream_handle delayed)\<rparr>
     in (st2, \<lparr>input_stream_handle = stream,
                output_stream_handle = output_stream_handle_s integration1,
                integration_stream2 = integration1,
                integrate_delayed_stream2 = delayed\<rparr>))"

fun Integrate2_step ::
  "'a store2 \<times> 'a Integrate2 \<Rightarrow> ((error + bool) \<times> 'a store2 \<times> 'a Integrate2) option" where
  "Integrate2_step (st, self) =
    (case Delay2_step (st, integrate_delayed_stream2 self) of
       (Inl e, st1, d) \<Rightarrow> Some (Inl e, st1, self\<lparr>integrate_delayed_stream2 := d\<rparr>)
     | (Inr r1, st1, d) \<Rightarrow>
        (let self1 = self\<lparr>integrate_delayed_stream2 := d\<rparr>
         in case Lift2_2_step (st1, integration_stream2 self1) of
              None \<Rightarrow> None
            | Some (Inl e, st2, a) \<Rightarrow> Some (Inl e, st2, self1\<lparr>integration_stream2 := a\<rparr>)
            | Some (Inr r2, st2, a) \<Rightarrow>
                Some (Inr (timestamp2 (snd st2 ! output_stream_handle self1)
                           = timestamp2 (snd st2 ! input_stream_handle self1)),
                      st2, self1\<lparr>integration_stream2 := a\<rparr>)))"

text \<open>
  The expression \<open>Integrate(Differentiate(s)) == s\<close>, both operators drained:
  the value of the comparison, or the exception raised on the way; and the
  same for \<open>Differentiate(Integrate(s)) == s\<close>.
\<close>

definition Integrate_of_Differentiate2_equals ::
  "'a store2 \<Rightarrow> nat \<Rightarrow> (error + bool) option" where
  "Integrate_of_Differentiate2_equals st s =
    (case step_until_fixpoint2 Differentiate2_step (Differentiate2_init st s) of
       None \<Rightarrow> None
     | Some (Inl e, z) \<Rightarrow> Some (Inl e)
     | Some (Inr u, st1, differentiate) \<Rightarrow>
        (case step_until_fixpoint2 Integrate2_step
                (Integrate2_init st1 (output_stream_handle differentiate)) of
           None \<Rightarrow> None
         | Some (Inl e, z) \<Rightarrow> Some (Inl e)
         | Some (Inr u, (h, hh), integrate) \<Rightarrow>
             Some (Inr (stream_eq2 h (hh ! output_stream_handle integrate) (hh ! s)))))"

definition Differentiate_of_Integrate2_equals ::
  "'a store2 \<Rightarrow> nat \<Rightarrow> (error + bool) option" where
  "Differentiate_of_Integrate2_equals st s =
    (case step_until_fixpoint2 Integrate2_step (Integrate2_init st s) of
       None \<Rightarrow> None
     | Some (Inl e, z) \<Rightarrow> Some (Inl e)
     | Some (Inr u, st1, integrate) \<Rightarrow>
        (case step_until_fixpoint2 Differentiate2_step
                (Differentiate2_init st1 (output_stream_handle integrate)) of
           None \<Rightarrow> None
         | Some (Inl e, z) \<Rightarrow> Some (Inl e)
         | Some (Inr u, (h, hh), differentiate) \<Rightarrow>
             Some (Inr (stream_eq2 h (hh ! output_stream_handle differentiate) (hh ! s)))))"

text \<open>
  A stream of integer streams: the element streams \<open>X\<close> (3 sent, cursor 1) and
  \<open>Y\<close> (1, 4, 5 sent, cursor 3) are sent to a new stream over
  \<open>StreamAddition(IntegerAddition)\<close>.
\<close>

definition nested_example :: "int store2" where
  "nested_example =
    (case Stream2_init [sends IntegerAddition [3], sends IntegerAddition [1, 4, 5]]
            IntegerAddition of
       (h, s) \<Rightarrow> (h, [send2 h 1 (send2 h 0 s)]))"

section \<open>Properties of streams\<close>

lemma sends_Nil: "sends g [] = Stream_init g"
  by (simp add: sends_def)

lemma sends_snoc: "sends g (vs @ [v]) = send v (sends g vs)"
  by (simp add: sends_def)

lemma send_fields [simp]:
  "timestamp (send v s) = timestamp s + 1"
  "group_op (send v s) = group_op s"
  "default_val (send v s) = default_val s"
  "default_changes (send v s) = default_changes s"
  "identity (send v s) = (identity s \<and> v = default_val s)"
  "map_of (inner (send v s)) =
     (if v = default_val s then map_of (inner s) else (map_of (inner s))(timestamp s + 1 \<mapsto> v))"
  by (auto simp: send_def Let_def update_conv')

lemma Stream_init_fields [simp]:
  "timestamp (Stream_init g) = 0"
  "group_op (Stream_init g) = g"
  "default_val (Stream_init g) = identity_elem g"
  "default_changes (Stream_init g) = [(0, identity_elem g)]"
  "identity (Stream_init g) = True"
  "inner (Stream_init g) = []"
  by (simp_all add: Stream_init_def send_def Let_def)

lemma sends_fields [simp]:
  "timestamp (sends g vs) = int (length vs)"
  "group_op (sends g vs) = g"
  "default_val (sends g vs) = identity_elem g"
  "default_changes (sends g vs) = [(0, identity_elem g)]"
  "identity (sends g vs) = (\<forall>v\<in>set vs. v = identity_elem g)"
  by (induction vs rule: rev_induct) (auto simp: sends_Nil sends_snoc)

lemma sends_inner:
  "map_of (inner (sends g vs)) t =
     (if 1 \<le> t \<and> t \<le> int (length vs) \<and> vs ! (nat t - 1) \<noteq> identity_elem g
      then Some (vs ! (nat t - 1)) else None)"
proof (induction vs rule: rev_induct)
  case Nil
  show ?case by (simp add: sends_Nil)
next
  case (snoc v vs)
  show ?case
  proof (cases "t = int (length vs) + 1")
    case True
    then have "nat t - 1 = length vs" by simp
    with True show ?thesis using snoc by (simp add: sends_snoc)
  next
    case False
    then have "(vs @ [v]) ! (nat t - 1) = vs ! (nat t - 1)" if "1 \<le> t" "t \<le> int (length vs) + 1"
    proof -
      from that False have "nat t - 1 < length vs" by linarith
      then show ?thesis by (simp add: nth_append)
    qed
    with False show ?thesis using snoc by (auto simp add: sends_snoc)
  qed
qed

lemma default_timestamp_single [simp]: "default_timestamp [(0, e)] t = 0"
  by (simp add: default_timestamp_def)

lemma lookup_sends:
  "0 \<le> t \<Longrightarrow> t \<le> int (length vs) \<Longrightarrow>
     lookup (sends g vs) t = Inr ((identity_elem g # vs) ! nat t)"
  by (cases "t = 0") (auto simp: lookup_def sends_inner nth_Cons' nat_diff_distrib)

lemma extend_to_sends:
  "extend_to t (sends g vs) = sends g (padded (identity_elem g) (nat t) vs)"
proof (induction "nat t - length vs" arbitrary: vs)
  case 0
  then show ?case
    by (subst extend_to.simps) (simp add: get_current_time_def padded_def)
next
  case (Suc n)
  from Suc(2) have lt: "int (length vs) < t" by linarith
  have "extend_to t (sends g vs) = extend_to t (sends g (vs @ [identity_elem g]))"
    using lt by (subst extend_to.simps) (simp add: get_current_time_def sends_snoc)
  also have "\<dots> = sends g (padded (identity_elem g) (nat t) (vs @ [identity_elem g]))"
    using Suc(2) by (intro Suc(1)) simp
  also have "padded (identity_elem g) (nat t) (vs @ [identity_elem g])
             = padded (identity_elem g) (nat t) vs"
  proof -
    have "nat t - length vs = Suc (nat t - Suc (length vs))" using Suc(2) by linarith
    then show ?thesis by (simp add: padded_def replicate_app_Cons_same)
  qed
  finally show ?case .
qed

lemma length_padded [simp]: "length (padded e m vs) = max m (length vs)"
  by (simp add: padded_def)

lemma padded_id [simp]: "m \<le> length vs \<Longrightarrow> padded e m vs = vs"
  by (simp add: padded_def)

lemma getitem_sends_in_range:
  assumes "0 \<le> t" "t \<le> int (length vs)"
  shows "getitem (sends g vs) t = (Inr ((identity_elem g # vs) ! nat t), sends g vs)"
  using assms
  by (simp add: getitem.simps [of "sends g vs" t] get_current_time_def lookup_sends)

lemma getitem_sends:
  assumes "0 \<le> t"
  shows "getitem (sends g vs) t =
           (Inr ((identity_elem g # padded (identity_elem g) (nat t) vs) ! nat t),
            sends g (padded (identity_elem g) (nat t) vs))"
proof (cases "t \<le> int (length vs)")
  case True
  then show ?thesis using assms by (simp add: getitem_sends_in_range)
next
  case False
  let ?p = "padded (identity_elem g) (nat t) vs"
  have le: "t \<le> int (length ?p)" using assms by (auto simp: max_def)
  have "getitem (sends g vs) t = getitem (sends g ?p) t"
    using assms False
    by (simp add: getitem.simps [of "sends g vs" t] get_current_time_def extend_to_sends)
  then show ?thesis using getitem_sends_in_range [OF assms le, of g] by simp
qed

lemma iter_from_sends:
  "\<forall>t\<in>set ts. 0 \<le> t \<and> t \<le> int (length vs) \<Longrightarrow>
     iter_from (sends g vs) ts = (Inr (map (\<lambda>t. (identity_elem g # vs) ! nat t) ts), sends g vs)"
  by (induction ts) (simp_all add: getitem_sends_in_range)

lemma map_nth_upto: "map (\<lambda>t. xs ! nat t) [0 .. int (length xs) - 1] = xs"
  by (rule nth_equalityI) simp_all

lemma to_list_sends: "to_list (sends g vs) = (Inr (identity_elem g # vs), sends g vs)"
  using map_nth_upto [of "identity_elem g # vs"]
  by (simp add: to_list_def get_current_time_def iter_from_sends)

lemma send_default: "send (default_val s) s = s\<lparr>timestamp := timestamp s + 1\<rparr>"
  by (simp add: send_def)

lemma funpow_send_default:
  "((\<lambda>s. send (default_val s) s) ^^ n) s = s\<lparr>timestamp := timestamp s + int n\<rparr>"
  by (induction n) (simp_all add: send_default)

lemma sends_replicate:
  "sends g (vs @ replicate k (identity_elem g))
     = (sends g vs)\<lparr>timestamp := int (length vs) + int k\<rparr>"
proof (induction k)
  case 0
  show ?case by simp
next
  case (Suc k)
  have "vs @ replicate (Suc k) (identity_elem g)
          = (vs @ replicate k (identity_elem g)) @ [identity_elem g]"
    by (simp add: replicate_append_same)
  then show ?case using Suc
    by (simp only: sends_snoc) (simp add: send_def)
qed

lemma sends_padded:
  "sends g (padded (identity_elem g) m vs)
     = ((\<lambda>s. send (default_val s) s) ^^ (m - length vs)) (sends g vs)"
  by (simp add: padded_def sends_replicate funpow_send_default)

lemma inner_sends_IntegerAddition_zeros: "inner (sends IntegerAddition [0, 0]) = []"
  by (simp add: sends_def Stream_init_def send_def IntegerAddition_def)

lemma inner_sends_IntegerAddition_examples:
  "inner (sends IntegerAddition [3]) = [(1, 3)]"
  "inner (sends IntegerAddition [3, 0]) = [(1, 3)]"
  "inner (sends IntegerAddition [0, 3]) = [(2, 3)]"
  by (simp_all add: sends_def Stream_init_def send_def IntegerAddition_def)

section \<open>Properties of the operators\<close>

declare Delay_step.simps [simp del] Lift1_step.simps [simp del] Lift2_step.simps [simp del]
  Differentiate_step.simps [simp del] Integrate_step.simps [simp del]

lemma step_until_fixpoint_done:
  "step z = (Inr True, z') \<Longrightarrow> step_until_fixpoint step z = Some (Inr (), z')"
  by (subst step_until_fixpoint.simps) simp

lemma step_until_fixpoint_more:
  "step z = (Inr False, z') \<Longrightarrow> step_until_fixpoint step z = step_until_fixpoint step z'"
  by (subst step_until_fixpoint.simps) simp

lemma step_until_fixpoint_raise:
  "step z = (Inl e, z') \<Longrightarrow> step_until_fixpoint step z = Some (Inl e, z')"
  by (subst step_until_fixpoint.simps) simp

lemma list_update_same: "h ! a = x \<Longrightarrow> h[a := x] = h"
  by auto

lemma heap_getitem_sends:
  assumes "h ! a = sends g vs" "0 \<le> t"
  shows "heap_getitem h a t =
           (Inr ((identity_elem g # padded (identity_elem g) (nat t) vs) ! nat t),
            h[a := sends g (padded (identity_elem g) (nat t) vs)])"
  using assms by (simp add: heap_getitem_def getitem_sends)

lemma heap_getitem_sends_in_range:
  assumes "h ! a = sends g vs" "0 \<le> t" "t \<le> int (length vs)"
  shows "heap_getitem h a t = (Inr ((identity_elem g # vs) ! nat t), h)"
  using assms by (simp add: heap_getitem_def getitem_sends_in_range list_update_same)

lemma heap_send_sends:
  "h ! a = sends g vs \<Longrightarrow> heap_send h a v = h[a := sends g (vs @ [v])]"
  by (simp add: heap_send_def sends_snoc)

lemma Delay_step_sends:
  assumes "h ! input_stream_handle self = sends g vs"
    and "h ! output_stream_handle self = sends g' ds"
  shows "Delay_step (h, self) =
           (if length ds \<le> length vs
            then (Inr False,
                  h[output_stream_handle self :=
                      sends g' (ds @ [(identity_elem g # vs) ! length ds])],
                  self)
            else (Inr True, h, self))"
  using assms
  by (simp add: Delay_step.simps get_current_time_def heap_getitem_sends_in_range
        heap_send_sends)

lemma Delay_drain_sends:
  assumes "h ! input_stream_handle self = sends g vs"
    and "h ! output_stream_handle self = sends g' ds"
    and "input_stream_handle self \<noteq> output_stream_handle self"
    and "output_stream_handle self < length h"
  shows "step_until_fixpoint Delay_step (h, self) =
           Some (Inr (),
                 h[output_stream_handle self :=
                     sends g' (ds @ drop (length ds) (identity_elem g # vs))],
                 self)"
  using assms
proof (induction "Suc (length vs) - length ds" arbitrary: h ds)
  case 0
  then have "Delay_step (h, self) = (Inr True, h, self)"
    by (simp add: Delay_step_sends [of h self g vs g' ds])
  with 0 show ?case
    by (simp add: step_until_fixpoint_done list_update_same)
next
  case (Suc n)
  let ?x = "(identity_elem g # vs) ! length ds"
  let ?h = "h[output_stream_handle self := sends g' (ds @ [?x])]"
  from Suc(2) have le: "length ds \<le> length vs" by simp
  then have step: "Delay_step (h, self) = (Inr False, ?h, self)"
    using Suc(3,4) by (simp add: Delay_step_sends [of h self g vs g' ds])
  have "step_until_fixpoint Delay_step (?h, self) =
          Some (Inr (),
                ?h[output_stream_handle self :=
                     sends g' ((ds @ [?x]) @ drop (length (ds @ [?x])) (identity_elem g # vs))],
                self)"
    using Suc(2-6) by (intro Suc(1)) simp_all
  moreover have "?x # drop (Suc (length ds)) (identity_elem g # vs)
                   = drop (length ds) (identity_elem g # vs)"
    using le by (intro Cons_nth_drop_Suc) simp
  ultimately show ?case
    using step by (simp add: step_until_fixpoint_more)
qed

lemma Delay_init_sends:
  "h ! i = sends g vs \<Longrightarrow>
     Delay_init h i = (h @ [sends g []],
                       \<lparr>input_stream_handle = i, output_stream_handle = length h\<rparr>)"
  by (simp add: Delay_init_def set_input_def group_def sends_Nil)

lemma Delay_drained:
  assumes "h ! i = sends g vs" "i < length h"
  shows "step_until_fixpoint Delay_step (Delay_init h i) =
           Some (Inr (), h @ [sends g (identity_elem g # vs)],
                 \<lparr>input_stream_handle = i, output_stream_handle = length h\<rparr>)"
  using assms
    Delay_drain_sends [of "h @ [sends g []]"
      "\<lparr>input_stream_handle = i, output_stream_handle = length h\<rparr>" g vs g "[]"]
  by (simp add: Delay_init_sends nth_append)

lemma max_min3:
  fixes a b c :: int
  shows "(max (max a b) c = min (min a b) c) = (a = b \<and> b = c)"
  by (auto simp: max_def min_def)

lemma max_min5:
  fixes a b c d e :: int
  shows "(max (max (max (max a b) c) d) e = min (min (min (min a b) c) d) e)
           = (a = b \<and> b = c \<and> c = d \<and> d = e)"
  by (auto simp: max_def min_def)

lemma nat_int_Suc: "nat (int k + 1) = Suc k"
  by simp

lemma Lift1_step_sends:
  assumes "h ! input_stream_handle self = sends g vs"
    and "h ! output_stream_handle self = sends g' os"
    and "input_stream_handle self \<noteq> output_stream_handle self"
    and "frontier self = int k"
  shows "Lift1_step (h, self) =
           (if length vs = k \<and> length os = k then (Inr True, h, self)
            else let vs' = padded (identity_elem g) (Suc k) vs;
                     h1 = h[input_stream_handle self := sends g vs']
                 in (Inr False,
                     h1[output_stream_handle self := sends g' (os @ [f1 self h1 (vs' ! k)])],
                     self\<lparr>frontier := int k + 1\<rparr>))"
  using assms
  by (auto simp add: Lift1_step.simps get_current_time_def max_min3 Let_def
        heap_getitem_sends [of h _ g vs] nat_int_Suc heap_send_sends [of _ _ g' os])

lemma Lift2_step_sends:
  assumes "h ! input_stream_handle_a self = sends ga as"
    and "input_stream_handle_b self = Some b"
    and "h ! b = sends gb bs"
    and "h ! output_stream_handle_s self = sends g' os"
    and "input_stream_handle_a self \<noteq> output_stream_handle_s self"
    and "b \<noteq> output_stream_handle_s self"
    and "input_stream_handle_a self \<noteq> b"
    and "frontier_a self = int ka" and "frontier_b self = int kb"
  shows "Lift2_step (h, self) =
           (if length as = length bs \<and> length bs = length os \<and> length os = ka \<and> ka = kb
            then (Inr True, h, self)
            else let as' = padded (identity_elem ga) (Suc ka) as;
                     bs' = padded (identity_elem gb) (Suc kb) bs;
                     h2 = h[input_stream_handle_a self := sends ga as', b := sends gb bs']
                 in (Inr False,
                     h2[output_stream_handle_s self :=
                          sends g' (os @ [f2 self h2 (as' ! ka) (bs' ! kb)])],
                     self\<lparr>frontier_a := int ka + 1, frontier_b := int kb + 1\<rparr>))"
  using assms
  by (auto simp add: Lift2_step.simps get_current_time_def max_min5 Let_def
        heap_getitem_sends [of _ _ ga as] heap_getitem_sends [of _ _ gb bs] nat_int_Suc
        heap_send_sends [of _ _ g' os])

lemma Differentiate_init_sends:
  assumes "h ! i = sends g vs" "i < length h"
  shows "Differentiate_init h i =
           (h @ [sends g [], sends g [], sends g []],
            Differentiate_state i (length h) (Suc (length h)) (Suc (Suc (length h))) 0)"
  using assms
  by (simp add: Differentiate_init_def Delay_init_sends LiftedGroupNegate_init_def
        Lift1_init_def set_input_def LiftedGroupAdd_init_def Lift2_init_def group_def
        sends_Nil nth_append Differentiate_state_def)

lemma Differentiate_step_sends:
  assumes i: "h ! i = sends g vs"
    and d: "h ! d = sends g ds" and n: "h ! n = sends g ns" and out: "h ! out = sends g os"
    and len: "length ds = k" "length ns = k" "length os = k" "k \<le> length vs"
    and dist: "distinct [i, d, n, out]"
    and bound: "i < length h" "d < length h" "n < length h" "out < length h"
  shows "Differentiate_step (h, Differentiate_state i d n out k) =
           (Inr (length vs \<le> Suc k),
            h[i := sends g (padded (identity_elem g) (Suc k) vs),
              d := sends g (ds @ [(identity_elem g # vs) ! k]),
              n := sends g (ns @ [neg g ((identity_elem g # vs) ! k)]),
              out := sends g (os @ [add g (padded (identity_elem g) (Suc k) vs ! k)
                                     (neg g ((identity_elem g # vs) ! k))])],
            Differentiate_state i d n out (Suc k))"
proof -
  let ?x = "(identity_elem g # vs) ! k"
  let ?D = "\<lparr>input_stream_handle = i, output_stream_handle = d\<rparr>"
  let ?N = "\<lparr>input_stream_handle = d, output_stream_handle = n,
             f1 = (\<lambda>h' x. neg (group (h' ! d)) x), frontier = int k\<rparr> :: 'a Lift1"
  let ?A = "\<lparr>input_stream_handle_a = i, input_stream_handle_b = Some n,
             output_stream_handle_s = out, f2 = (\<lambda>h' x y. add (group (h' ! i)) x y),
             frontier_a = int k, frontier_b = int k\<rparr> :: 'a Lift2"
  let ?h1 = "h[d := sends g (ds @ [?x])]"
  have s1: "Delay_step (h, ?D) = (Inr False, ?h1, ?D)"
    using Delay_step_sends [of h ?D g vs g ds] i d len by simp
  let ?h2 = "?h1[n := sends g (ns @ [neg g ?x])]"
  have s2: "Lift1_step (?h1, ?N) = (Inr False, ?h2, ?N\<lparr>frontier := int k + 1\<rparr>)"
    using Lift1_step_sends [of ?h1 ?N g "ds @ [?x]" g ns k] n len dist bound
    by (simp add: group_def Let_def nth_append)
  let ?vs' = "padded (identity_elem g) (Suc k) vs"
  let ?h3 = "?h2[i := sends g ?vs', out := sends g (os @ [add g (?vs' ! k) (neg g ?x)])]"
  have s3: "Lift2_step (?h2, ?A)
              = (Inr False, ?h3, ?A\<lparr>frontier_a := int k + 1, frontier_b := int k + 1\<rparr>)"
    using Lift2_step_sends [of ?h2 ?A g vs n g "ns @ [neg g ?x]" g os k k]
      i out len dist bound
    by (simp add: group_def Let_def nth_append list_update_swap [of n i])
  have eq: "?h3 = h[i := sends g ?vs', d := sends g (ds @ [?x]),
                    n := sends g (ns @ [neg g ?x]),
                    out := sends g (os @ [add g (?vs' ! k) (neg g ?x)])]"
    using dist bound by (simp add: list_eq_iff_nth_eq nth_list_update)
  have cur: "(timestamp (?h3 ! out) = timestamp (?h3 ! i)) = (length vs \<le> Suc k)"
    using dist bound len by (auto simp: max_def)
  show ?thesis
    unfolding eq [symmetric]
    by (simp add: Differentiate_step.simps Differentiate_state_def s1 s2 s3 Let_def
          get_current_time_def cur del: length_list_update nth_list_update_eq
          nth_list_update_neq)
qed

lemma length_differences [simp]: "length (differences g vs) = length vs"
  by (simp add: differences_def)

lemma nth_differences:
  "k < length vs \<Longrightarrow>
     differences g vs ! k = add g (vs ! k) (neg g ((identity_elem g # vs) ! k))"
  by (simp add: differences_def)

lemma Differentiate_drain_from:
  assumes i: "h ! i = sends g vs"
    and d: "h ! d = sends g (take k (identity_elem g # vs))"
    and n: "h ! n = sends g (map (neg g) (take k (identity_elem g # vs)))"
    and out: "h ! out = sends g (take k (differences g vs))"
    and k: "k < length vs"
    and dist: "distinct [i, d, n, out]"
    and bound: "i < length h" "d < length h" "n < length h" "out < length h"
  shows "step_until_fixpoint Differentiate_step (h, Differentiate_state i d n out k) =
           Some (Inr (),
                 h[d := sends g (take (length vs) (identity_elem g # vs)),
                   n := sends g (map (neg g) (take (length vs) (identity_elem g # vs))),
                   out := sends g (differences g vs)],
                 Differentiate_state i d n out (length vs))"
  using assms
proof (induction "length vs - k" arbitrary: h k)
  case 0
  then show ?case by simp
next
  case (Suc m)
  let ?xs = "identity_elem g # vs"
  let ?D = "sends g (take (Suc k) ?xs)"
  let ?N = "sends g (map (neg g) (take (Suc k) ?xs))"
  let ?O = "sends g (take (Suc k) (differences g vs))"
  let ?h = "h[d := ?D, n := ?N, out := ?O]"
  note dist = Suc.prems(6) and bound = Suc.prems(7-10)
  from Suc.prems have k: "k < length vs" by simp
  have l1: "length (take k ?xs) = k" using k by simp
  have l2: "length (map (neg g) (take k ?xs)) = k" using k by simp
  have l3: "length (take k (differences g vs)) = k" using k by simp
  have kle: "k \<le> length vs" using k by simp
  have a1: "take k ?xs @ [?xs ! k] = take (Suc k) ?xs"
    using k by (simp add: take_Suc_conv_app_nth del: take_Suc_Cons)
  have a2: "map (neg g) (take k ?xs) @ [neg g (?xs ! k)] = map (neg g) (take (Suc k) ?xs)"
    using a1 [symmetric] by (simp del: take_Suc_Cons)
  have pad: "padded (identity_elem g) (Suc k) vs = vs" using k by simp
  have a3: "take k (differences g vs) @ [add g (vs ! k) (neg g (?xs ! k))]
              = take (Suc k) (differences g vs)"
    using k by (simp add: take_Suc_conv_app_nth nth_differences)
  have same: "h[i := sends g vs] = h" using Suc.prems(1) by (rule list_update_same)
  have step: "Differentiate_step (h, Differentiate_state i d n out k)
                = (Inr (length vs \<le> Suc k), ?h, Differentiate_state i d n out (Suc k))"
    unfolding Differentiate_step_sends [OF Suc.prems(1-4) l1 l2 l3 kle dist bound]
      pad same a1 a2 a3 ..
  show ?case
  proof (cases "length vs \<le> Suc k")
    case True
    with k have e: "Suc k = length vs" by simp
    have t: "take (length vs) (differences g vs) = differences g vs" by simp
    from step True show ?thesis
      unfolding e t by (simp only: step_until_fixpoint_done)
  next
    case False
    have hd: "?h ! d = ?D" and hn: "?h ! n = ?N" and ho: "?h ! out = ?O"
      and hi: "?h ! i = sends g vs"
      using dist bound Suc.prems(1) by simp_all
    have k': "Suc k < length vs" "m = length vs - Suc k" using False Suc.hyps(2) by simp_all
    have bound': "i < length ?h" "d < length ?h" "n < length ?h" "out < length ?h"
      using bound by simp_all
    have "step_until_fixpoint Differentiate_step (?h, Differentiate_state i d n out (Suc k)) =
            Some (Inr (),
                  ?h[d := sends g (take (length vs) ?xs),
                     n := sends g (map (neg g) (take (length vs) ?xs)),
                     out := sends g (differences g vs)],
                  Differentiate_state i d n out (length vs))"
      by (rule Suc.hyps(1) [OF k'(2) hi hd hn ho k'(1) dist bound'])
    moreover have "?h[d := sends g (take (length vs) ?xs),
                      n := sends g (map (neg g) (take (length vs) ?xs)),
                      out := sends g (differences g vs)]
                   = h[d := sends g (take (length vs) ?xs),
                       n := sends g (map (neg g) (take (length vs) ?xs)),
                       out := sends g (differences g vs)]"
      using dist bound by (simp add: list_eq_iff_nth_eq nth_list_update del: take_Suc_Cons)
    ultimately show ?thesis
      using step False by (simp only: step_until_fixpoint_more if_False)
  qed
qed

lemma heap3_update:
  "(h @ [a, b, c])[length h := a', Suc (length h) := b', Suc (Suc (length h)) := c']
     = h @ [a', b', c']"
  by (simp add: list_update_append)

lemma Differentiate_drained:
  assumes i: "h ! i = sends g vs" and b: "i < length h"
  shows "step_until_fixpoint Differentiate_step (Differentiate_init h i) =
           Some (Inr (),
                 h[i := sends g (padded (identity_elem g) 1 vs)]
                   @ [sends g (take (max 1 (length vs)) (identity_elem g # vs)),
                      sends g (map (neg g) (take (max 1 (length vs)) (identity_elem g # vs))),
                      sends g (differences g (padded (identity_elem g) 1 vs))],
                 Differentiate_state i (length h) (Suc (length h)) (Suc (Suc (length h)))
                   (max 1 (length vs)))"
proof -
  let ?e = "identity_elem g"
  let ?H = "h @ [sends g [], sends g [], sends g []]"
  let ?d = "length h" and ?n = "Suc (length h)" and ?o = "Suc (Suc (length h))"
  have Hi: "?H ! i = sends g vs" using i b by (simp add: nth_append)
  have Hd: "?H ! ?d = sends g []" and Hn: "?H ! ?n = sends g []" and Ho: "?H ! ?o = sends g []"
    by (simp_all add: nth_append)
  have dist: "distinct [i, ?d, ?n, ?o]" using b by simp
  have bound: "i < length ?H" "?d < length ?H" "?n < length ?H" "?o < length ?H"
    using b by simp_all
  show ?thesis
  proof (cases vs)
    case Nil
    have step: "Differentiate_step (?H, Differentiate_state i ?d ?n ?o 0) =
           (Inr (length vs \<le> Suc 0),
            ?H[i := sends g (padded ?e (Suc 0) vs),
              ?d := sends g ([] @ [(?e # vs) ! 0]),
              ?n := sends g ([] @ [neg g ((?e # vs) ! 0)]),
              ?o := sends g ([] @ [add g (padded ?e (Suc 0) vs ! 0) (neg g ((?e # vs) ! 0))])],
            Differentiate_state i ?d ?n ?o (Suc 0))"
      by (rule Differentiate_step_sends [OF Hi Hd Hn Ho _ _ _ _ dist bound]) simp_all
    have heap: "?H[i := sends g (padded ?e (Suc 0) vs),
              ?d := sends g ([] @ [(?e # vs) ! 0]),
              ?n := sends g ([] @ [neg g ((?e # vs) ! 0)]),
              ?o := sends g ([] @ [add g (padded ?e (Suc 0) vs ! 0) (neg g ((?e # vs) ! 0))])]
            = h[i := sends g [?e]] @ [sends g [?e], sends g [neg g ?e], sends g [add g ?e (neg g ?e)]]"
      using b Nil by (simp add: list_update_append padded_def)
    have "Differentiate_step (?H, Differentiate_state i ?d ?n ?o 0) =
           (Inr True,
            h[i := sends g [?e]] @ [sends g [?e], sends g [neg g ?e], sends g [add g ?e (neg g ?e)]],
            Differentiate_state i ?d ?n ?o (Suc 0))"
      using step Nil unfolding heap by simp
    from step_until_fixpoint_done [of Differentiate_step, OF this] show ?thesis
      using Nil i b
      by (simp add: Differentiate_init_sends padded_def differences_def)
  next
    case (Cons v ws)
    then have k: "0 < length vs" by simp
    have d0: "?H ! ?d = sends g (take 0 (?e # vs))"
      and n0: "?H ! ?n = sends g (map (neg g) (take 0 (?e # vs)))"
      and o0: "?H ! ?o = sends g (take 0 (differences g vs))"
      by (simp_all add: nth_append)
    have pad: "padded ?e 1 vs = vs" "max 1 (length vs) = length vs"
      using Cons by (simp_all add: padded_def)
    have same: "h[i := sends g vs] = h" using i by (rule list_update_same)
    show ?thesis
      unfolding pad same Differentiate_init_sends [OF i b]
        Differentiate_drain_from [OF Hi d0 n0 o0 k dist bound] heap3_update ..
  qed
qed

lemma length_running_sums [simp]: "length (running_sums g acc vs) = length vs"
  by (induction vs arbitrary: acc) simp_all

lemma nth_running_sums:
  "k < length vs \<Longrightarrow>
     running_sums g acc vs ! k = add g (vs ! k) ((acc # running_sums g acc vs) ! k)"
proof (induction vs arbitrary: acc k)
  case Nil
  then show ?case by simp
next
  case (Cons v vs)
  then show ?case by (cases k) simp_all
qed

lemma heap2_update:
  "(h @ [a, b])[length h := a', Suc (length h) := b'] = h @ [a', b']"
  by (simp add: list_update_append)

lemma Integrate_init_sends:
  assumes "h ! i = sends g vs" "i < length h"
  shows "Integrate_init h i =
           (h @ [sends g [], sends g []],
            Integrate_state i (length h) (Suc (length h)) 0)"
  using assms
  by (simp add: Integrate_init_def Delay_init_def set_input_def LiftedGroupAdd_init_def
        Lift2_init_def group_def sends_Nil nth_append Integrate_state_def set_input_b_def)

lemma Integrate_step_sends:
  assumes i: "h ! i = sends g vs"
    and out: "h ! out = sends g os" and d: "h ! d = sends g ds"
    and len: "length os = k" "length ds = k" "k \<le> length vs"
    and dist: "distinct [i, out, d]"
    and bound: "i < length h" "out < length h" "d < length h"
  shows "Integrate_step (h, Integrate_state i out d k) =
           (Inr (length vs \<le> Suc k),
            h[i := sends g (padded (identity_elem g) (Suc k) vs),
              out := sends g (os @ [add g (padded (identity_elem g) (Suc k) vs ! k)
                                     ((identity_elem g # os) ! k)]),
              d := sends g (ds @ [(identity_elem g # os) ! k])],
            Integrate_state i out d (Suc k))"
proof -
  let ?x = "(identity_elem g # os) ! k"
  let ?D = "\<lparr>input_stream_handle = out, output_stream_handle = d\<rparr>"
  let ?A = "\<lparr>input_stream_handle_a = i, input_stream_handle_b = Some d,
             output_stream_handle_s = out, f2 = (\<lambda>h' x y. add (group (h' ! i)) x y),
             frontier_a = int k, frontier_b = int k\<rparr> :: 'a Lift2"
  let ?h1 = "h[d := sends g (ds @ [?x])]"
  have s1: "Delay_step (h, ?D) = (Inr False, ?h1, ?D)"
    using Delay_step_sends [of h ?D g os g ds] out d len by simp
  let ?vs' = "padded (identity_elem g) (Suc k) vs"
  let ?h2 = "?h1[i := sends g ?vs', out := sends g (os @ [add g (?vs' ! k) ?x])]"
  have s2: "Lift2_step (?h1, ?A)
              = (Inr False, ?h2, ?A\<lparr>frontier_a := int k + 1, frontier_b := int k + 1\<rparr>)"
    using Lift2_step_sends [of ?h1 ?A g vs d g "ds @ [?x]" g os k k]
      i out len dist bound
    by (simp add: group_def Let_def nth_append list_update_swap [of d i])
  have eq: "?h2 = h[i := sends g ?vs', out := sends g (os @ [add g (?vs' ! k) ?x]),
                    d := sends g (ds @ [?x])]"
    using dist bound by (simp add: list_eq_iff_nth_eq nth_list_update)
  have cur: "(timestamp (?h2 ! out) = timestamp (?h2 ! i)) = (length vs \<le> Suc k)"
    using dist bound len by (auto simp: max_def)
  show ?thesis
    unfolding eq [symmetric]
    by (simp add: Integrate_step.simps Integrate_state_def s1 s2 Let_def
          get_current_time_def cur del: length_list_update nth_list_update_eq
          nth_list_update_neq)
qed

lemma Integrate_drain_from:
  assumes i: "h ! i = sends g vs"
    and out: "h ! out = sends g (take k (running_sums g (identity_elem g) vs))"
    and d: "h ! d = sends g (take k (identity_elem g # running_sums g (identity_elem g) vs))"
    and k: "k < length vs"
    and dist: "distinct [i, out, d]"
    and bound: "i < length h" "out < length h" "d < length h"
  shows "step_until_fixpoint Integrate_step (h, Integrate_state i out d k) =
           Some (Inr (),
                 h[out := sends g (running_sums g (identity_elem g) vs),
                   d := sends g (take (length vs)
                                  (identity_elem g # running_sums g (identity_elem g) vs))],
                 Integrate_state i out d (length vs))"
  using assms
proof (induction "length vs - k" arbitrary: h k)
  case 0
  then show ?case by simp
next
  case (Suc m)
  let ?e = "identity_elem g"
  let ?rs = "running_sums g ?e vs"
  let ?O = "sends g (take (Suc k) ?rs)"
  let ?D = "sends g (take (Suc k) (?e # ?rs))"
  let ?h = "h[out := ?O, d := ?D]"
  note dist = Suc.prems(5) and bound = Suc.prems(6-8)
  from Suc.prems have k: "k < length vs" by simp
  have l1: "length (take k ?rs) = k" using k by simp
  have l2: "length (take k (?e # ?rs)) = k" using k by simp
  have kle: "k \<le> length vs" using k by simp
  have x: "(?e # take k ?rs) ! k = (?e # ?rs) ! k"
    using k by (cases k) simp_all
  have a1: "take k (?e # ?rs) @ [(?e # take k ?rs) ! k] = take (Suc k) (?e # ?rs)"
    unfolding x using k by (simp add: take_Suc_conv_app_nth del: take_Suc_Cons)
  have pad: "padded ?e (Suc k) vs = vs" using k by simp
  have a2: "take k ?rs @ [add g (vs ! k) ((?e # take k ?rs) ! k)] = take (Suc k) ?rs"
    unfolding x using k by (simp add: take_Suc_conv_app_nth nth_running_sums [of k vs g ?e])
  have same: "h[i := sends g vs] = h" using Suc.prems(1) by (rule list_update_same)
  have step: "Integrate_step (h, Integrate_state i out d k)
                = (Inr (length vs \<le> Suc k), ?h, Integrate_state i out d (Suc k))"
    unfolding Integrate_step_sends [OF Suc.prems(1-3) l1 l2 kle dist bound]
      pad same a1 a2 ..
  show ?case
  proof (cases "length vs \<le> Suc k")
    case True
    with k have e: "Suc k = length vs" by simp
    have t: "take (length vs) ?rs = ?rs" by simp
    from step True show ?thesis
      unfolding e t by (simp only: step_until_fixpoint_done)
  next
    case False
    have ho: "?h ! out = ?O" and hd: "?h ! d = ?D" and hi: "?h ! i = sends g vs"
      using dist bound Suc.prems(1) by simp_all
    have k': "Suc k < length vs" "m = length vs - Suc k" using False Suc.hyps(2) by simp_all
    have bound': "i < length ?h" "out < length ?h" "d < length ?h"
      using bound by simp_all
    have "step_until_fixpoint Integrate_step (?h, Integrate_state i out d (Suc k)) =
            Some (Inr (),
                  ?h[out := sends g ?rs, d := sends g (take (length vs) (?e # ?rs))],
                  Integrate_state i out d (length vs))"
      by (rule Suc.hyps(1) [OF k'(2) hi ho hd k'(1) dist bound'])
    moreover have "?h[out := sends g ?rs, d := sends g (take (length vs) (?e # ?rs))]
                   = h[out := sends g ?rs, d := sends g (take (length vs) (?e # ?rs))]"
      using dist bound by (simp add: list_eq_iff_nth_eq nth_list_update del: take_Suc_Cons)
    ultimately show ?thesis
      using step False by (simp only: step_until_fixpoint_more if_False)
  qed
qed

lemma Integrate_drained:
  assumes i: "h ! i = sends g vs" and b: "i < length h"
  shows "step_until_fixpoint Integrate_step (Integrate_init h i) =
           Some (Inr (),
                 h[i := sends g (padded (identity_elem g) 1 vs)]
                   @ [sends g (running_sums g (identity_elem g) (padded (identity_elem g) 1 vs)),
                      sends g (take (max 1 (length vs))
                                 (identity_elem g
                                  # running_sums g (identity_elem g)
                                      (padded (identity_elem g) 1 vs)))],
                 Integrate_state i (length h) (Suc (length h)) (max 1 (length vs)))"
proof -
  let ?e = "identity_elem g"
  let ?H = "h @ [sends g [], sends g []]"
  let ?o = "length h" and ?d = "Suc (length h)"
  have Hi: "?H ! i = sends g vs" using i b by (simp add: nth_append)
  have Ho: "?H ! ?o = sends g []" and Hd: "?H ! ?d = sends g []"
    by (simp_all add: nth_append)
  have dist: "distinct [i, ?o, ?d]" using b by simp
  have bound: "i < length ?H" "?o < length ?H" "?d < length ?H"
    using b by simp_all
  show ?thesis
  proof (cases vs)
    case Nil
    have step: "Integrate_step (?H, Integrate_state i ?o ?d 0) =
           (Inr (length vs \<le> Suc 0),
            ?H[i := sends g (padded ?e (Suc 0) vs),
              ?o := sends g ([] @ [add g (padded ?e (Suc 0) vs ! 0) ((?e # []) ! 0)]),
              ?d := sends g ([] @ [(?e # []) ! 0])],
            Integrate_state i ?o ?d (Suc 0))"
      by (rule Integrate_step_sends [OF Hi Ho Hd _ _ _ dist bound]) simp_all
    have heap: "?H[i := sends g (padded ?e (Suc 0) vs),
              ?o := sends g ([] @ [add g (padded ?e (Suc 0) vs ! 0) ((?e # []) ! 0)]),
              ?d := sends g ([] @ [(?e # []) ! 0])]
            = h[i := sends g [?e]] @ [sends g [add g ?e ?e], sends g [?e]]"
      using b Nil by (simp add: list_update_append padded_def)
    have "Integrate_step (?H, Integrate_state i ?o ?d 0) =
           (Inr True, h[i := sends g [?e]] @ [sends g [add g ?e ?e], sends g [?e]],
            Integrate_state i ?o ?d (Suc 0))"
      using step Nil unfolding heap by simp
    from step_until_fixpoint_done [of Integrate_step, OF this] show ?thesis
      using Nil i b
      by (simp add: Integrate_init_sends padded_def)
  next
    case (Cons v ws)
    then have k: "0 < length vs" by simp
    have o0: "?H ! ?o = sends g (take 0 (running_sums g ?e vs))"
      and d0: "?H ! ?d = sends g (take 0 (?e # running_sums g ?e vs))"
      by (simp_all add: nth_append)
    have pad: "padded ?e 1 vs = vs" "max 1 (length vs) = length vs"
      using Cons by (simp_all add: padded_def)
    have same: "h[i := sends g vs] = h" using i by (rule list_update_same)
    show ?thesis
      unfolding pad same Integrate_init_sends [OF i b]
        Integrate_drain_from [OF Hi o0 d0 k dist bound] heap2_update ..
  qed
qed

lemma abelian_group_cancel:
  assumes "abelian_group g"
  shows "add g (add g x (neg g y)) y = x" and "add g (add g x y) (neg g y) = x"
proof -
  from assms have assoc: "\<And>x y z. add g (add g x y) z = add g x (add g y z)"
    and comm: "\<And>x y. add g x y = add g y x"
    and unit: "\<And>x. add g x (identity_elem g) = x"
    and inv: "\<And>x. add g x (neg g x) = identity_elem g"
    unfolding abelian_group_def by blast+
  have "add g (add g x (neg g y)) y = add g x (add g y (neg g y))"
    by (simp only: assoc comm [of "neg g y" y])
  then show "add g (add g x (neg g y)) y = x" by (simp only: inv unit)
  show "add g (add g x y) (neg g y) = x" by (simp only: assoc inv unit)
qed

lemma running_sums_differences:
  assumes "abelian_group g"
  shows "running_sums g (identity_elem g) (differences g vs) = vs"
proof (rule nth_equalityI)
  show "length (running_sums g (identity_elem g) (differences g vs)) = length vs" by simp
next
  fix k
  assume "k < length (running_sums g (identity_elem g) (differences g vs))"
  then have "k < length vs" by simp
  then show "running_sums g (identity_elem g) (differences g vs) ! k = vs ! k"
  proof (induction k)
    case 0
    then show ?case
      by (simp add: nth_running_sums nth_differences abelian_group_cancel [OF assms])
  next
    case (Suc k)
    then show ?case
      by (simp add: nth_running_sums [of "Suc k"] nth_differences
            abelian_group_cancel [OF assms])
  qed
qed

lemma differences_running_sums:
  assumes "abelian_group g"
  shows "differences g (running_sums g (identity_elem g) vs) = vs"
proof (rule nth_equalityI)
  show "length (differences g (running_sums g (identity_elem g) vs)) = length vs" by simp
next
  fix k
  assume "k < length (differences g (running_sums g (identity_elem g) vs))"
  then have k: "k < length vs" by simp
  then show "differences g (running_sums g (identity_elem g) vs) ! k = vs ! k"
    by (simp add: nth_differences nth_running_sums [of k vs]
          abelian_group_cancel [OF assms])
qed



lemma abelian_group_IntegerAddition: "abelian_group IntegerAddition"
  by (simp add: abelian_group_def IntegerAddition_def)

lemma getitem_shifted:
  assumes "1 \<le> t" "t \<le> int (length vs) + 1"
  shows "fst (getitem (sends g (x # vs)) t) = Inr ((x # vs) ! nat (t - 1))"
proof -
  from assms obtain k where k: "nat t = Suc k" by (cases "nat t") auto
  then have "nat (t - 1) = k" by linarith
  with k assms show ?thesis by (simp add: getitem_sends_in_range)
qed

lemma to_list_IntegerAddition:
  "fst (to_list (sends IntegerAddition vs)) = Inr (0 # vs)"
  by (simp add: to_list_sends) (simp add: IntegerAddition_def)

lemma Differentiate_step_reports:
  "Differentiate_step (H, self) = (Inr b, H', self') \<Longrightarrow>
     b = (timestamp (H' ! output_stream_handle self) = timestamp (H' ! input_stream_handle self))"
  by (cases self)
     (auto simp: Differentiate_step.simps Let_def get_current_time_def
        split: prod.splits sum.splits)

lemma Differentiate_step_order:
  "Delay_step (H, delayed_stream self) = (Inr r1, H1, D) \<Longrightarrow>
   Lift1_step (H1, delayed_negated_stream self) = (Inr r2, H2, N) \<Longrightarrow>
   Lift2_step (H2, differentiation_stream self) = (Inr r3, H3, A) \<Longrightarrow>
   Differentiate_step (H, self)
     = (Inr (timestamp (H3 ! output_stream_handle self)
             = timestamp (H3 ! input_stream_handle self)),
        H3,
        self\<lparr>delayed_stream := D, delayed_negated_stream := N,
             differentiation_stream := A\<rparr>)"
  by (cases self) (simp add: Differentiate_step.simps Let_def get_current_time_def)

lemma padded_one: "padded e 1 vs = (if vs = [] then [e] else vs)"
  by (cases vs) (simp_all add: padded_def)

lemma differences_values:
  assumes "1 \<le> t" "t \<le> int (length vs)"
  shows "\<exists>a b. getitem (sends g vs) t = (Inr a, sends g vs)
           \<and> getitem (sends g vs) (t - 1) = (Inr b, sends g vs)
           \<and> getitem (sends g (differences g vs)) t
               = (Inr (add g a (neg g b)), sends g (differences g vs))"
proof -
  from assms obtain k where k: "nat t = Suc k" by (cases "nat t") auto
  then have k1: "nat (t - 1) = k" by linarith
  from k assms have kl: "k < length vs" by linarith
  have "getitem (sends g vs) t = (Inr (vs ! k), sends g vs)"
    using assms k by (simp add: getitem_sends_in_range)
  moreover have "getitem (sends g vs) (t - 1) = (Inr ((identity_elem g # vs) ! k), sends g vs)"
    using assms k1 by (simp add: getitem_sends_in_range)
  moreover have "getitem (sends g (differences g vs)) t
      = (Inr (add g (vs ! k) (neg g ((identity_elem g # vs) ! k))), sends g (differences g vs))"
    using assms k kl by (simp add: getitem_sends_in_range nth_differences)
  ultimately show ?thesis by blast
qed

lemma differences_example: "differences IntegerAddition [3, 8, 10] = [3, 5, 2]"
  by (simp add: differences_def IntegerAddition_def)

lemma IntegerAddition_simps:
  "identity_elem IntegerAddition = 0"
  "add IntegerAddition x y = x + y"
  "neg IntegerAddition x = - x"
  by (simp_all add: IntegerAddition_def)



lemma running_sums_example: "running_sums IntegerAddition 0 [3, 5, 2] = [3, 8, 10]"
  by (simp add: IntegerAddition_simps)

lemma stream_eq_refl: "stream_eq s s"
  by (simp add: stream_eq_def)

lemma stream_eq_extended_fresh:
  "stream_eq (sends g (if vs = [] then [identity_elem g] else vs)) (sends g vs)"
  by (simp add: stream_eq_def is_identity_stream_def)

lemma Integrate_of_Differentiate_sends:
  assumes g: "abelian_group g" and b: "i < length h" and i: "h ! i = sends g vs"
    and v: "vs' = (if vs = [] then [identity_elem g] else vs)"
  shows "Integrate_of_Differentiate h i =
           Some (Inr (length h + 3),
                 h[i := sends g vs']
                   @ [sends g (take (length vs') (identity_elem g # vs)),
                      sends g (map (neg g) (take (length vs') (identity_elem g # vs))),
                      sends g (differences g vs'),
                      sends g vs',
                      sends g (take (length vs') (identity_elem g # vs'))])"
proof -
  let ?e = "identity_elem g"
  let ?h1 = "h[i := sends g vs']
               @ [sends g (take (length vs') (?e # vs)),
                  sends g (map (neg g) (take (length vs') (?e # vs))),
                  sends g (differences g vs')]"
  let ?d = "Suc (Suc (length h))"
  have m: "max 1 (length vs) = length vs'" and ne: "vs' \<noteq> []"
    using v by (cases vs; simp)+
  have first: "step_until_fixpoint Differentiate_step (Differentiate_init h i)
                 = Some (Inr (), ?h1, Differentiate_state i (length h) (Suc (length h)) ?d
                                       (length vs'))"
    using Differentiate_drained [OF i b] v m by (simp only: padded_one)
  have d1: "?h1 ! ?d = sends g (differences g vs')" and d2: "?d < length ?h1"
    by (simp_all add: nth_append)
  have p: "padded ?e 1 (differences g vs') = differences g vs'"
    and m': "max 1 (length (differences g vs')) = length vs'"
    using ne by (simp_all add: padded_one Suc_le_eq)
  have same: "?h1[?d := sends g (differences g vs')] = ?h1"
    using d1 by (rule list_update_same)
  have second: "step_until_fixpoint Integrate_step (Integrate_init ?h1 ?d)
                  = Some (Inr (),
                          ?h1 @ [sends g vs', sends g (take (length vs') (?e # vs'))],
                          Integrate_state ?d (length ?h1) (Suc (length ?h1)) (length vs'))"
    using Integrate_drained [OF d1 d2]
    unfolding p m' same running_sums_differences [OF g] .
  show ?thesis
    unfolding Integrate_of_Differentiate_def step_until_fixpoint_and_return_def
    by (simp add: first Differentiate_state_def)
       (simp add: second Integrate_state_def)
qed

lemma Differentiate_of_Integrate_sends:
  assumes g: "abelian_group g" and b: "i < length h" and i: "h ! i = sends g vs"
    and v: "vs' = (if vs = [] then [identity_elem g] else vs)"
  shows "Differentiate_of_Integrate h i =
           Some (Inr (length h + 4),
                 h[i := sends g vs']
                   @ [sends g (running_sums g (identity_elem g) vs'),
                      sends g (take (length vs')
                                 (identity_elem g # running_sums g (identity_elem g) vs')),
                      sends g (take (length vs')
                                 (identity_elem g # running_sums g (identity_elem g) vs')),
                      sends g (map (neg g)
                                 (take (length vs')
                                    (identity_elem g # running_sums g (identity_elem g) vs'))),
                      sends g vs'])"
proof -
  let ?e = "identity_elem g"
  let ?rs = "running_sums g ?e vs'"
  let ?h1 = "h[i := sends g vs'] @ [sends g ?rs, sends g (take (length vs') (?e # ?rs))]"
  let ?d = "length h"
  have m: "max 1 (length vs) = length vs'" and ne: "vs' \<noteq> []"
    using v by (cases vs; simp)+
  have first: "step_until_fixpoint Integrate_step (Integrate_init h i)
                 = Some (Inr (), ?h1, Integrate_state i ?d (Suc ?d) (length vs'))"
    using Integrate_drained [OF i b] v m by (simp only: padded_one)
  have d1: "?h1 ! ?d = sends g ?rs" and d2: "?d < length ?h1"
    by (simp_all add: nth_append)
  have p: "padded ?e 1 ?rs = ?rs" and m': "max 1 (length ?rs) = length vs'"
    using ne by (simp_all add: padded_one Suc_le_eq)
  have same: "?h1[?d := sends g ?rs] = ?h1"
    using d1 by (rule list_update_same)
  have second: "step_until_fixpoint Differentiate_step (Differentiate_init ?h1 ?d)
                  = Some (Inr (),
                          ?h1 @ [sends g (take (length vs') (?e # ?rs)),
                                 sends g (map (neg g) (take (length vs') (?e # ?rs))),
                                 sends g vs'],
                          Differentiate_state ?d (length ?h1) (Suc (length ?h1))
                            (Suc (Suc (length ?h1))) (length vs'))"
    using Differentiate_drained [OF d1 d2]
    unfolding p m' same differences_running_sums [OF g] .
  show ?thesis
    unfolding Differentiate_of_Integrate_def step_until_fixpoint_and_return_def
    by (simp add: first Integrate_state_def)
       (simp add: second Differentiate_state_def)
qed

lemma nth_padded:
  "k < max m (length vs) \<Longrightarrow> padded e m vs ! k = (if k < length vs then vs ! k else e)"
  by (auto simp: padded_def nth_append)

lemma padded_padded: "k \<le> m \<Longrightarrow> padded e m (padded e k vs) = padded e m vs"
  by (auto simp: padded_def max_def simp flip: replicate_add)

lemma length_added [simp]: "length (added g eb as bs) = max (length as) (length bs)"
  by (simp add: added_def Let_def)

lemma nth_added:
  "k < max (length as) (length bs) \<Longrightarrow>
     added g eb as bs ! k
       = add g (padded (identity_elem g) (Suc k) as ! k) (padded eb (Suc k) bs ! k)"
  by (simp add: added_def Let_def nth_padded)

lemma LiftedGroupAdd_init_sends:
  assumes "h ! a = sends g as"
  shows "LiftedGroupAdd_init h a (Some b)
           = (h @ [sends g []], LiftedGroupAdd_state a b (length h) 0)"
  using assms
  by (simp add: LiftedGroupAdd_init_def Lift2_init_def group_def sends_Nil
        LiftedGroupAdd_state_def)

lemma LiftedGroupAdd_step_sends:
  assumes a: "h ! a = sends ga (padded (identity_elem ga) k as)"
    and b: "h ! b = sends gb (padded (identity_elem gb) k bs)"
    and out: "h ! out = sends ga (take k (added ga (identity_elem gb) as bs))"
    and k: "k < max (length as) (length bs)"
    and dist: "a \<noteq> b" "a \<noteq> out" "b \<noteq> out"
    and bound: "a < length h" "b < length h" "out < length h"
  shows "Lift2_step (h, LiftedGroupAdd_state a b out k) =
           (Inr False,
            h[a := sends ga (padded (identity_elem ga) (Suc k) as),
              b := sends gb (padded (identity_elem gb) (Suc k) bs),
              out := sends ga (take (Suc k) (added ga (identity_elem gb) as bs))],
            LiftedGroupAdd_state a b out (Suc k))"
proof -
  let ?ea = "identity_elem ga" and ?eb = "identity_elem gb"
  let ?self = "LiftedGroupAdd_state a b out k :: 'a Lift2"
  let ?os = "take k (added ga ?eb as bs)"
  have lo: "length ?os = k" using k by simp
  have ne: "\<not> (length (padded ?ea k as) = length (padded ?eb k bs)
              \<and> length (padded ?eb k bs) = length ?os \<and> length ?os = k \<and> k = k)"
  proof -
    from k have "max k (length as) \<noteq> k \<or> max k (length bs) \<noteq> k" by linarith
    with lo show ?thesis by (auto simp del: length_take length_added)
  qed
  have t: "?os @ [add ga (padded ?ea (Suc k) as ! k) (padded ?eb (Suc k) bs ! k)]
             = take (Suc k) (added ga ?eb as bs)"
    using k by (simp add: take_Suc_conv_app_nth nth_added)
  have sa: "h ! input_stream_handle_a ?self = sends ga (padded ?ea k as)"
    and sb: "input_stream_handle_b ?self = Some b"
    and so: "h ! output_stream_handle_s ?self = sends ga ?os"
    and d: "input_stream_handle_a ?self \<noteq> output_stream_handle_s ?self"
      "b \<noteq> output_stream_handle_s ?self" "input_stream_handle_a ?self \<noteq> b"
    and f: "frontier_a ?self = int k" "frontier_b ?self = int k"
    using a out dist by (simp_all add: LiftedGroupAdd_state_def)
  have "Lift2_step (h, ?self) =
          (let as' = padded ?ea (Suc k) (padded ?ea k as);
               bs' = padded ?eb (Suc k) (padded ?eb k bs);
               h2 = h[input_stream_handle_a ?self := sends ga as', b := sends gb bs']
           in (Inr False,
               h2[output_stream_handle_s ?self :=
                    sends ga (?os @ [f2 ?self h2 (as' ! k) (bs' ! k)])],
               ?self\<lparr>frontier_a := int k + 1, frontier_b := int k + 1\<rparr>))"
    using Lift2_step_sends [OF sa sb b so d f] ne by (simp only: if_False)
  also have "\<dots> = (Inr False,
            h[a := sends ga (padded ?ea (Suc k) as),
              b := sends gb (padded ?eb (Suc k) bs),
              out := sends ga (?os @ [add ga (padded ?ea (Suc k) as ! k)
                                       (padded ?eb (Suc k) bs ! k)])],
            LiftedGroupAdd_state a b out (Suc k))"
    using dist bound
    by (simp add: Let_def LiftedGroupAdd_state_def padded_padded group_def
          del: length_padded length_take length_added)
  finally show ?thesis unfolding t .
qed

lemma LiftedGroupAdd_step_level:
  assumes a: "h ! a = sends ga (padded (identity_elem ga) m as)"
    and b: "h ! b = sends gb (padded (identity_elem gb) m bs)"
    and out: "h ! out = sends ga (added ga (identity_elem gb) as bs)"
    and m: "m = max (length as) (length bs)"
    and dist: "a \<noteq> b" "a \<noteq> out" "b \<noteq> out"
  shows "Lift2_step (h, LiftedGroupAdd_state a b out m)
           = (Inr True, h, LiftedGroupAdd_state a b out m)"
proof -
  let ?self = "LiftedGroupAdd_state a b out m :: 'a Lift2"
  have sa: "h ! input_stream_handle_a ?self = sends ga (padded (identity_elem ga) m as)"
    and sb: "input_stream_handle_b ?self = Some b"
    and so: "h ! output_stream_handle_s ?self = sends ga (added ga (identity_elem gb) as bs)"
    and d: "input_stream_handle_a ?self \<noteq> output_stream_handle_s ?self"
      "b \<noteq> output_stream_handle_s ?self" "input_stream_handle_a ?self \<noteq> b"
    and f: "frontier_a ?self = int m" "frontier_b ?self = int m"
    using a out dist by (simp_all add: LiftedGroupAdd_state_def)
  show ?thesis
    using Lift2_step_sends [OF sa sb b so d f] m by simp
qed

lemma LiftedGroupAdd_drain_from:
  assumes a: "h ! a = sends ga (padded (identity_elem ga) k as)"
    and b: "h ! b = sends gb (padded (identity_elem gb) k bs)"
    and out: "h ! out = sends ga (take k (added ga (identity_elem gb) as bs))"
    and k: "k \<le> max (length as) (length bs)"
    and dist: "a \<noteq> b" "a \<noteq> out" "b \<noteq> out"
    and bound: "a < length h" "b < length h" "out < length h"
  shows "step_until_fixpoint Lift2_step (h, LiftedGroupAdd_state a b out k) =
           Some (Inr (),
                 h[a := sends ga (padded (identity_elem ga) (max (length as) (length bs)) as),
                   b := sends gb (padded (identity_elem gb) (max (length as) (length bs)) bs),
                   out := sends ga (added ga (identity_elem gb) as bs)],
                 LiftedGroupAdd_state a b out (max (length as) (length bs)))"
  using assms
proof (induction "max (length as) (length bs) - k" arbitrary: h k)
  case 0
  let ?m = "max (length as) (length bs)"
  from 0(1,5) have km: "k = ?m" by linarith
  have t: "take ?m (added ga (identity_elem gb) as bs) = added ga (identity_elem gb) as bs"
    by simp
  have "Lift2_step (h, LiftedGroupAdd_state a b out ?m)
          = (Inr True, h, LiftedGroupAdd_state a b out ?m)"
    using 0(2-4) 0(6-8) unfolding km t
    by (intro LiftedGroupAdd_step_level) simp_all
  moreover have "h[a := sends ga (padded (identity_elem ga) ?m as),
                   b := sends gb (padded (identity_elem gb) ?m bs),
                   out := sends ga (added ga (identity_elem gb) as bs)] = h"
    using 0(2-4) unfolding km t
    by (simp add: list_update_same)
  ultimately show ?case
    unfolding km by (simp only: step_until_fixpoint_done)
next
  case (Suc n)
  let ?m = "max (length as) (length bs)"
  let ?A = "sends ga (padded (identity_elem ga) (Suc k) as)"
  let ?B = "sends gb (padded (identity_elem gb) (Suc k) bs)"
  let ?O = "sends ga (take (Suc k) (added ga (identity_elem gb) as bs))"
  let ?h = "h[a := ?A, b := ?B, out := ?O]"
  note dist = Suc.prems(5-7) and bound = Suc.prems(8-10)
  from Suc.hyps(2) have k: "k < ?m" "n = ?m - Suc k" "Suc k \<le> ?m" by simp_all
  have step: "Lift2_step (h, LiftedGroupAdd_state a b out k)
                = (Inr False, ?h, LiftedGroupAdd_state a b out (Suc k))"
    by (rule LiftedGroupAdd_step_sends [OF Suc.prems(1-3) k(1) dist bound])
  have ha: "?h ! a = ?A" and hb: "?h ! b = ?B" and ho: "?h ! out = ?O"
    using dist bound by simp_all
  have bound': "a < length ?h" "b < length ?h" "out < length ?h"
    using bound by simp_all
  have "step_until_fixpoint Lift2_step (?h, LiftedGroupAdd_state a b out (Suc k)) =
          Some (Inr (),
                ?h[a := sends ga (padded (identity_elem ga) ?m as),
                   b := sends gb (padded (identity_elem gb) ?m bs),
                   out := sends ga (added ga (identity_elem gb) as bs)],
                LiftedGroupAdd_state a b out ?m)"
    by (rule Suc.hyps(1) [OF k(2) ha hb ho k(3) dist bound'])
  moreover have "?h[a := sends ga (padded (identity_elem ga) ?m as),
                    b := sends gb (padded (identity_elem gb) ?m bs),
                    out := sends ga (added ga (identity_elem gb) as bs)]
                 = h[a := sends ga (padded (identity_elem ga) ?m as),
                     b := sends gb (padded (identity_elem gb) ?m bs),
                     out := sends ga (added ga (identity_elem gb) as bs)]"
    using dist bound by (simp add: list_eq_iff_nth_eq nth_list_update)
  ultimately show ?case
    using step by (simp only: step_until_fixpoint_more)
qed

lemma nth_added_same:
  "k < length as \<Longrightarrow> added g (identity_elem g) as as ! k = add g (as ! k) (as ! k)"
  by (simp add: nth_added)

lemma LiftedGroupAdd_step_alias:
  assumes a: "h ! a = sends g as"
    and out: "h ! out = sends g (take k (added g (identity_elem g) as as))"
    and dist: "a \<noteq> out"
    and le: "k \<le> length as"
  shows "Lift2_step (h, LiftedGroupAdd_state a a out k) =
           (if k < length as
            then (Inr False,
                  h[out := sends g (take (Suc k) (added g (identity_elem g) as as))],
                  LiftedGroupAdd_state a a out (Suc k))
            else (Inr True, h, LiftedGroupAdd_state a a out k))"
proof (cases "k < length as")
  case True
  then have r: "heap_getitem h a (int k + 1) = (Inr (as ! k), h)"
    using heap_getitem_sends_in_range [OF a, of "int k + 1"] by (simp add: nat_int_Suc)
  have t: "take k (added g (identity_elem g) as as) @ [add g (as ! k) (as ! k)]
             = take (Suc k) (added g (identity_elem g) as as)"
    using True by (simp add: take_Suc_conv_app_nth nth_added_same)
  have ne: "\<not> (int (length as) = int k)" and m: "min (length as) k = k"
    using True by simp_all
  show ?thesis
    using True a out dist t
    by (simp add: Lift2_step.simps LiftedGroupAdd_state_def get_current_time_def max_min5
          Let_def r heap_send_sends [OF out] group_def m)
next
  case False
  with le have "k = length as" by simp
  then show ?thesis
    using a out
    by (simp add: Lift2_step.simps LiftedGroupAdd_state_def get_current_time_def max_min5
          Let_def)
qed

lemma LiftedGroupAdd_drain_alias:
  assumes a: "h ! a = sends g as"
    and out: "h ! out = sends g (take k (added g (identity_elem g) as as))"
    and dist: "a \<noteq> out"
    and le: "k \<le> length as"
    and bound: "out < length h"
  shows "step_until_fixpoint Lift2_step (h, LiftedGroupAdd_state a a out k) =
           Some (Inr (),
                 h[out := sends g (added g (identity_elem g) as as)],
                 LiftedGroupAdd_state a a out (length as))"
  using assms
proof (induction "length as - k" arbitrary: h k)
  case 0
  then have k: "k = length as" by simp
  have t: "take (length as) (added g (identity_elem g) as as)
             = added g (identity_elem g) as as" by simp
  from 0(2-4) show ?case
    unfolding k t
    by (simp add: LiftedGroupAdd_step_alias [where k = "length as", unfolded t]
          step_until_fixpoint_done list_update_same)
next
  case (Suc n)
  let ?O = "sends g (take (Suc k) (added g (identity_elem g) as as))"
  let ?h = "h[out := ?O]"
  from Suc.hyps(2) have k: "k < length as" "n = length as - Suc k" "Suc k \<le> length as"
    by simp_all
  have step: "Lift2_step (h, LiftedGroupAdd_state a a out k)
                = (Inr False, ?h, LiftedGroupAdd_state a a out (Suc k))"
    using LiftedGroupAdd_step_alias [OF Suc.prems(1-4)] k(1) by simp
  have ha: "?h ! a = sends g as" and ho: "?h ! out = ?O" and b': "out < length ?h"
    using Suc.prems by simp_all
  from Suc.hyps(1) [OF k(2) ha ho Suc.prems(3) k(3) b'] step show ?case
    by (simp add: step_until_fixpoint_more del: length_added)
qed

lemma sends_padded_cursor:
  "sends g (padded (identity_elem g) m vs) = (sends g vs)\<lparr>timestamp := int (max m (length vs))\<rparr>"
proof (cases "m \<le> length vs")
  case True
  then show ?thesis by (simp add: max_def)
next
  case False
  then show ?thesis by (simp add: padded_def sends_replicate max_def)
qed

lemma StreamAddition_add_distinct:
  assumes ab: "a \<noteq> b" and bound: "a < length h" "b < length h"
    and a: "h ! a = sends ga as" and b: "h ! b = sends gb bs"
  shows "\<exists>h'. StreamAddition_add h a b = Some (Inr (length h), h')
           \<and> h' ! a = (h ! a)\<lparr>timestamp := int (max (length as) (length bs))\<rparr>
           \<and> h' ! b = (h ! b)\<lparr>timestamp := int (max (length as) (length bs))\<rparr>"
proof -
  let ?m = "max (length as) (length bs)"
  let ?H = "h @ [sends ga []]"
  let ?out = "length h"
  let ?A = "sends ga (padded (identity_elem ga) ?m as)"
  let ?B = "sends gb (padded (identity_elem gb) ?m bs)"
  let ?O = "sends ga (added ga (identity_elem gb) as bs)"
  let ?h2 = "?H[a := ?A, b := ?B, ?out := ?O]"
  have Ha: "?H ! a = sends ga (padded (identity_elem ga) 0 as)"
    and Hb: "?H ! b = sends gb (padded (identity_elem gb) 0 bs)"
    and Ho: "?H ! ?out = sends ga (take 0 (added ga (identity_elem gb) as bs))"
    using a b bound by (simp_all add: nth_append)
  have dist: "a \<noteq> b" "a \<noteq> ?out" "b \<noteq> ?out" using ab bound by simp_all
  have bd: "a < length ?H" "b < length ?H" "?out < length ?H" using bound by simp_all
  have drain: "step_until_fixpoint Lift2_step (LiftedGroupAdd_init h a (Some b))
                 = Some (Inr (), ?h2, LiftedGroupAdd_state a b ?out ?m)"
    unfolding LiftedGroupAdd_init_sends [OF a]
    by (rule LiftedGroupAdd_drain_from [OF Ha Hb Ho _ dist bd]) simp
  have h2a: "?h2 ! a = ?A" and h2b: "?h2 ! b = ?B"
    using dist bd by simp_all
  have A: "?A = (h ! a)\<lparr>timestamp := int ?m\<rparr>" and B: "?B = (h ! b)\<lparr>timestamp := int ?m\<rparr>"
    unfolding a b sends_padded_cursor by (simp_all add: max.commute)
  obtain h' where h': "StreamAddition_add h a b = Some (Inr ?out, h')"
    and keep: "h' ! a = ?h2 ! a" "h' ! b = ?h2 ! b"
    using dist bd
    by (simp add: StreamAddition_add_def step_until_fixpoint_and_return_def drain Let_def
          LiftedGroupAdd_state_def del: length_added)
  with h2a h2b A B show ?thesis by (intro exI [of _ h']) simp
qed

lemma StreamAddition_add_result:
  assumes "step_until_fixpoint Lift2_step (LiftedGroupAdd_init h a (Some b))
             = Some (Inr (), h2, operator)"
    and "output_stream_handle_s operator = out" and "out \<noteq> a" and "out \<noteq> b"
  shows "\<exists>h'. StreamAddition_add h a b = Some (Inr out, h')
           \<and> h' ! a = h2 ! a \<and> h' ! b = h2 ! b"
  using assms
  by (cases "LiftedGroupAdd_init h a (Some b)")
     (simp add: StreamAddition_add_def step_until_fixpoint_and_return_def Let_def)

lemma StreamAddition_add_alias:
  assumes bound: "a < length h" and a: "h ! a = sends g as"
  shows "\<exists>h'. StreamAddition_add h a a = Some (Inr (length h), h') \<and> h' ! a = h ! a"
proof -
  let ?H = "h @ [sends g []]"
  let ?out = "length h"
  let ?h2 = "?H[?out := sends g (added g (identity_elem g) as as)]"
  have Ha: "?H ! a = sends g as"
    and Ho: "?H ! ?out = sends g (take 0 (added g (identity_elem g) as as))"
    using a bound by (simp_all add: nth_append)
  have dist: "a \<noteq> ?out" using bound by simp
  have drain: "step_until_fixpoint Lift2_step (LiftedGroupAdd_init h a (Some a))
                 = Some (Inr (), ?h2, LiftedGroupAdd_state a a ?out (length as))"
    unfolding LiftedGroupAdd_init_sends [OF a]
    by (rule LiftedGroupAdd_drain_alias [OF Ha Ho dist]) simp_all
  have h2a: "?h2 ! a = h ! a" using bound by (simp add: nth_append)
  from StreamAddition_add_result [OF drain, of ?out] dist h2a show ?thesis
    by (auto simp: LiftedGroupAdd_state_def)
qed

lemma sends_example_fields:
  "inner (sends IntegerAddition [1]) = [(1, 1)]"
  "inner (sends IntegerAddition [3, 5, 2]) = [(1, 3), (2, 5), (3, 2)]"
  by (simp_all add: sends_def Stream_init_def send_def IntegerAddition_def)

lemma Lift1_step_noop:
  "max (max (timestamp (h ! input_stream_handle self))
            (timestamp (h ! output_stream_handle self))) (frontier self)
     = min (min (timestamp (h ! input_stream_handle self))
               (timestamp (h ! output_stream_handle self))) (frontier self)
   \<Longrightarrow> Lift1_step (h, self) = (Inr True, h, self)"
  by (simp add: Lift1_step.simps Let_def get_current_time_def max_min3)

lemma Lift1_step_level:
  "(fst (Lift1_step (h, self)) = Inr True)
     = (max (max (timestamp (h ! input_stream_handle self))
                 (timestamp (h ! output_stream_handle self))) (frontier self)
        = min (min (timestamp (h ! input_stream_handle self))
                   (timestamp (h ! output_stream_handle self))) (frontier self))"
  (is "?lhs = ?level")
proof (cases ?level)
  case True
  from Lift1_step_noop [OF True] have "?lhs" by (simp only: fst_conv)
  with True show ?thesis by (simp only: simp_thms)
next
  case False
  obtain r h1 where g: "heap_getitem h (input_stream_handle self) (frontier self + 1) = (r, h1)"
    by (cases "heap_getitem h (input_stream_handle self) (frontier self + 1)")
  from False have "fst (Lift1_step (h, self)) \<noteq> Inr True"
    by (cases r) (simp_all add: Lift1_step.simps Let_def get_current_time_def g max_min3)
  with False show ?thesis by (simp only: simp_thms)
qed

lemma Lift2_step_noop:
  "input_stream_handle_b self = Some b \<Longrightarrow>
   max (max (max (max (timestamp (h ! input_stream_handle_a self)) (timestamp (h ! b)))
                 (timestamp (h ! output_stream_handle_s self)))
            (frontier_a self)) (frontier_b self)
     = min (min (min (min (timestamp (h ! input_stream_handle_a self)) (timestamp (h ! b)))
                     (timestamp (h ! output_stream_handle_s self)))
                (frontier_a self)) (frontier_b self)
   \<Longrightarrow> Lift2_step (h, self) = (Inr True, h, self)"
  by (simp add: Lift2_step.simps Let_def get_current_time_def max_min5)

lemma Lift2_step_level:
  assumes sb: "input_stream_handle_b self = Some b"
  shows "(fst (Lift2_step (h, self)) = Inr True)
     = (max (max (max (max (timestamp (h ! input_stream_handle_a self)) (timestamp (h ! b)))
                      (timestamp (h ! output_stream_handle_s self)))
                 (frontier_a self)) (frontier_b self)
        = min (min (min (min (timestamp (h ! input_stream_handle_a self)) (timestamp (h ! b)))
                        (timestamp (h ! output_stream_handle_s self)))
                   (frontier_a self)) (frontier_b self))"
  (is "?lhs = ?level")
proof (cases ?level)
  case True
  from Lift2_step_noop [OF sb True] have "?lhs" by (simp only: fst_conv)
  with True show ?thesis by (simp only: simp_thms)
next
  case False
  from False have "fst (Lift2_step (h, self)) \<noteq> Inr True"
    by (simp add: Lift2_step.simps Let_def get_current_time_def sb max_min5
          split: prod.split sum.split)
  with False show ?thesis by (simp only: simp_thms)
qed

lemma getitem_sends_ok:
  "0 \<le> t \<Longrightarrow> \<exists>v ws. getitem (sends g vs) t = (Inr v, sends g ws)"
  by (auto simp: getitem_sends)

lemma Lift1_step_advance:
  assumes i: "h ! input_stream_handle self = sends g vs"
    and f: "0 \<le> frontier self"
    and ne: "max (max (timestamp (h ! input_stream_handle self))
                      (timestamp (h ! output_stream_handle self))) (frontier self)
             \<noteq> min (min (timestamp (h ! input_stream_handle self))
                        (timestamp (h ! output_stream_handle self))) (frontier self)"
  shows "\<exists>v s'. getitem (h ! input_stream_handle self) (frontier self + 1) = (Inr v, s')
           \<and> Lift1_step (h, self)
               = (Inr False,
                  heap_send (h[input_stream_handle self := s']) (output_stream_handle self)
                    (f1 self (h[input_stream_handle self := s']) v),
                  self\<lparr>frontier := frontier self + 1\<rparr>)"
proof -
  from f have "0 \<le> frontier self + 1" by simp
  from getitem_sends_ok [OF this, of g vs] obtain v ws
    where r: "getitem (sends g vs) (frontier self + 1) = (Inr v, sends g ws)" by blast
  with ne i show ?thesis
    by (simp add: Lift1_step.simps Let_def get_current_time_def heap_getitem_def max_min3)
qed

lemma Lift2_step_advance:
  assumes a: "h ! input_stream_handle_a self = sends ga as"
    and sb: "input_stream_handle_b self = Some b"
    and b: "h ! b = sends gb bs"
    and bound: "input_stream_handle_a self < length h"
    and f: "0 \<le> frontier_a self" "0 \<le> frontier_b self"
    and ne: "max (max (max (max (timestamp (h ! input_stream_handle_a self))
                                (timestamp (h ! b)))
                           (timestamp (h ! output_stream_handle_s self)))
                      (frontier_a self)) (frontier_b self)
             \<noteq> min (min (min (min (timestamp (h ! input_stream_handle_a self))
                                  (timestamp (h ! b)))
                             (timestamp (h ! output_stream_handle_s self)))
                        (frontier_a self)) (frontier_b self)"
  shows "\<exists>va sa vb sb.
           getitem (h ! input_stream_handle_a self) (frontier_a self + 1) = (Inr va, sa)
           \<and> getitem (h[input_stream_handle_a self := sa] ! b) (frontier_b self + 1)
               = (Inr vb, sb)
           \<and> Lift2_step (h, self)
               = (Inr False,
                  heap_send (h[input_stream_handle_a self := sa, b := sb])
                    (output_stream_handle_s self)
                    (f2 self (h[input_stream_handle_a self := sa, b := sb]) va vb),
                  self\<lparr>frontier_a := frontier_a self + 1,
                       frontier_b := frontier_b self + 1\<rparr>)"
proof -
  let ?a = "input_stream_handle_a self"
  from f have f': "0 \<le> frontier_a self + 1" "0 \<le> frontier_b self + 1" by simp_all
  from getitem_sends_ok [OF f'(1), of ga as] obtain va wa
    where ra: "getitem (sends ga as) (frontier_a self + 1) = (Inr va, sends ga wa)" by blast
  have "\<exists>g' ws. h[?a := sends ga wa] ! b = sends g' ws"
    using b bound by (cases "?a = b") auto
  then obtain g' ws where hb: "h[?a := sends ga wa] ! b = sends g' ws" by blast
  from getitem_sends_ok [OF f'(2), of g' ws] obtain vb wb
    where rb: "getitem (sends g' ws) (frontier_b self + 1) = (Inr vb, sends g' wb)" by blast
  from ne a sb ra hb rb show ?thesis
    by (simp add: Lift2_step.simps Let_def get_current_time_def heap_getitem_def max_min5)
qed

lemma LiftedGroupNegate_init_example:
  "LiftedGroupNegate_init [sends IntegerAddition [3]] 0
     = ([sends IntegerAddition [3], sends IntegerAddition []],
        \<lparr>input_stream_handle = 0, output_stream_handle = 1,
         f1 = (\<lambda>h' x. neg (group (h' ! 0)) x), frontier = 0\<rparr>)"
  by (simp add: LiftedGroupNegate_init_def Lift1_init_def set_input_def group_def sends_Nil)

lemma getitem_sends_beyond:
  assumes "int (length vs) < t"
  shows "fst (getitem (sends g vs) t) = Inr (identity_elem g)"
proof -
  from assms obtain k where k: "nat t = Suc k" by (cases "nat t") auto
  with assms have "length vs \<le> k" by linarith
  with k assms show ?thesis by (simp add: getitem_sends padded_def nth_append)
qed

lemma latest_sends:
  "latest (sends g vs) = (Inr (last (identity_elem g # vs)), sends g vs)"
proof -
  have "(identity_elem g # vs) ! length vs = last (identity_elem g # vs)"
    using last_conv_nth [of "identity_elem g # vs"] by simp
  then show ?thesis
    by (simp add: latest_def get_current_time_def getitem_sends_in_range del: last.simps)
qed

lemma set_new_default_after_drain:
  assumes "step_until_fixpoint step z = Some (Inr (), h, operator)"
    and "output_handle operator = out" and "h ! out = sends g ws"
  shows "step_until_fixpoint_set_new_default_then_return step output_handle z
           = Some (Inr out, h, operator)"
  using assms
  by (simp add: step_until_fixpoint_set_new_default_then_return_def Let_def latest_sends
        set_default_def list_update_same)

section \<open>The claims\<close>

text \<open>
  C1, as the code has it. \<open>set_default\<close> leaves the stream as it is: the
  method is a placeholder that records nothing. The helper
  \<open>step_until_fixpoint_set_new_default_then_return\<close>, for a \<open>Delay\<close> or an
  \<open>Integrate\<close> over a stream with history \<open>vs\<close>, drains the operator, reads
  the output's latest value, hands it to \<open>set_default\<close>, and returns the
  output exactly as the drain left it: the default and the default history are
  still those of construction, and a read at any later timestamp returns the
  group identity.
\<close>

theorem set_default_placeholder:
  "set_default v s = s
   \<and> (i < length h \<and> h ! i = sends g vs \<longrightarrow>
        step_until_fixpoint_set_new_default_then_return Delay_step output_stream_handle
            (Delay_init h i)
          = Some (Inr (length h), h @ [sends g (identity_elem g # vs)],
                  \<lparr>input_stream_handle = i, output_stream_handle = length h\<rparr>)
        \<and> latest (sends g (identity_elem g # vs))
            = (Inr (last (identity_elem g # vs)), sends g (identity_elem g # vs))
        \<and> default_val (sends g (identity_elem g # vs)) = identity_elem g
        \<and> default_changes (sends g (identity_elem g # vs)) = [(0, identity_elem g)]
        \<and> (\<forall>t. timestamp (sends g (identity_elem g # vs)) < t \<longrightarrow>
               fst (getitem (sends g (identity_elem g # vs)) t) = Inr (identity_elem g)))
   \<and> (i < length h \<and> h ! i = sends g vs
        \<and> vs' = (if vs = [] then [identity_elem g] else vs)
        \<and> rs = running_sums g (identity_elem g) vs' \<longrightarrow>
        step_until_fixpoint_set_new_default_then_return Integrate_step output_stream_handle
            (Integrate_init h i)
          = Some (Inr (length h),
                  h[i := sends g vs']
                    @ [sends g rs, sends g (take (length vs') (identity_elem g # rs))],
                  Integrate_state i (length h) (Suc (length h)) (length vs'))
        \<and> latest (sends g rs) = (Inr (last (identity_elem g # rs)), sends g rs)
        \<and> default_val (sends g rs) = identity_elem g
        \<and> default_changes (sends g rs) = [(0, identity_elem g)]
        \<and> (\<forall>t. timestamp (sends g rs) < t \<longrightarrow>
               fst (getitem (sends g rs) t) = Inr (identity_elem g)))"
proof (intro conjI impI allI; (elim conjE)?)
  show "set_default v s = s" by (simp add: set_default_def)
next
  assume a: "i < length h" "h ! i = sends g vs"
  show "step_until_fixpoint_set_new_default_then_return Delay_step output_stream_handle
            (Delay_init h i)
          = Some (Inr (length h), h @ [sends g (identity_elem g # vs)],
                  \<lparr>input_stream_handle = i, output_stream_handle = length h\<rparr>)"
    by (rule set_new_default_after_drain [OF Delay_drained [OF a(2,1)]]) simp_all
next
  show "latest (sends g (identity_elem g # vs))
            = (Inr (last (identity_elem g # vs)), sends g (identity_elem g # vs))"
    using latest_sends [of g "identity_elem g # vs"] by simp
next
  show "default_val (sends g (identity_elem g # vs)) = identity_elem g" by simp
next
  show "default_changes (sends g (identity_elem g # vs)) = [(0, identity_elem g)]" by simp
next
  fix t :: int
  assume "timestamp (sends g (identity_elem g # vs)) < t"
  then show "fst (getitem (sends g (identity_elem g # vs)) t) = Inr (identity_elem g)"
    by (intro getitem_sends_beyond) simp
next
  assume a: "i < length h" "h ! i = sends g vs"
    and v: "vs' = (if vs = [] then [identity_elem g] else vs)"
    and r: "rs = running_sums g (identity_elem g) vs'"
  have m: "max 1 (length vs) = length vs'" using v by (cases vs) simp_all
  have drained: "step_until_fixpoint Integrate_step (Integrate_init h i)
        = Some (Inr (),
                h[i := sends g vs']
                  @ [sends g rs, sends g (take (length vs') (identity_elem g # rs))],
                Integrate_state i (length h) (Suc (length h)) (length vs'))"
    using Integrate_drained [OF a(2,1)] v m unfolding r by (simp only: padded_one)
  show "step_until_fixpoint_set_new_default_then_return Integrate_step output_stream_handle
            (Integrate_init h i)
          = Some (Inr (length h),
                  h[i := sends g vs']
                    @ [sends g rs, sends g (take (length vs') (identity_elem g # rs))],
                  Integrate_state i (length h) (Suc (length h)) (length vs'))"
    by (rule set_new_default_after_drain [OF drained, where g = g and ws = rs])
       (simp_all add: Integrate_state_def nth_append)
next
  show "latest (sends g rs) = (Inr (last (identity_elem g # rs)), sends g rs)"
    by (rule latest_sends)
next
  show "default_val (sends g rs) = identity_elem g" by simp
next
  show "default_changes (sends g rs) = [(0, identity_elem g)]" by simp
next
  fix t :: int
  assume "timestamp (sends g rs) < t"
  then show "fst (getitem (sends g rs) t) = Inr (identity_elem g)"
    by (intro getitem_sends_beyond) simp
qed

text \<open>The helper on a delay and on an integration of integer streams.\<close>

theorem set_default_placeholder_witness:
  "set_default 3 (sends IntegerAddition [0, 3]) = sends IntegerAddition [0, 3]
   \<and> step_until_fixpoint_set_new_default_then_return Delay_step output_stream_handle
       (Delay_init [sends IntegerAddition [3]] 0)
     = Some (Inr 1, [sends IntegerAddition [3], sends IntegerAddition [0, 3]],
             \<lparr>input_stream_handle = 0, output_stream_handle = 1\<rparr>)
   \<and> step_until_fixpoint_set_new_default_then_return Integrate_step output_stream_handle
       (Integrate_init [sends IntegerAddition [3, 5, 2]] 0)
     = Some (Inr 1,
             [sends IntegerAddition [3, 5, 2], sends IntegerAddition [3, 8, 10],
              sends IntegerAddition [0, 3, 8]],
             Integrate_state 0 1 2 3)
   \<and> fst (latest (sends IntegerAddition [3, 8, 10])) = Inr 10
   \<and> fst (getitem (sends IntegerAddition [3, 8, 10]) 4) = Inr 0"
proof -
  note law = set_default_placeholder [where v = 3 and s = "sends IntegerAddition [0, 3]"
      and i = 0 and h = "[sends IntegerAddition [3, 5, 2]]" and g = IntegerAddition
      and vs = "[3, 5, 2]" and vs' = "[3, 5, 2]" and rs = "[3, 8, 10]"]
  note law' = set_default_placeholder [where v = 3 and s = "sends IntegerAddition [0, 3]"
      and i = 0 and h = "[sends IntegerAddition [3]]" and g = IntegerAddition
      and vs = "[3]" and vs' = "[3]" and rs = "[3]"]
  have a: "set_default 3 (sends IntegerAddition [0, 3]) = sends IntegerAddition [0, 3]"
    using law [THEN conjunct1] .
  have b: "step_until_fixpoint_set_new_default_then_return Delay_step output_stream_handle
       (Delay_init [sends IntegerAddition [3]] 0)
     = Some (Inr 1, [sends IntegerAddition [3], sends IntegerAddition [0, 3]],
             \<lparr>input_stream_handle = 0, output_stream_handle = 1\<rparr>)"
    using law' [THEN conjunct2, THEN conjunct1, rule_format, THEN conjunct1]
    by (simp add: IntegerAddition_simps)
  have c: "step_until_fixpoint_set_new_default_then_return Integrate_step output_stream_handle
       (Integrate_init [sends IntegerAddition [3, 5, 2]] 0)
     = Some (Inr 1,
             [sends IntegerAddition [3, 5, 2], sends IntegerAddition [3, 8, 10],
              sends IntegerAddition [0, 3, 8]],
             Integrate_state 0 1 2 3)
     \<and> fst (latest (sends IntegerAddition [3, 8, 10])) = Inr 10
     \<and> fst (getitem (sends IntegerAddition [3, 8, 10]) 4) = Inr 0"
    using law [THEN conjunct2, THEN conjunct2, rule_format]
    by (simp add: running_sums_example IntegerAddition_simps numeral_2_eq_2 numeral_3_eq_3)
  from a b c show ?thesis by (simp only: simp_thms)
qed

text \<open>
  The claim says the captured latest value becomes the default in force from
  then on. After the helper has drained a \<open>Delay\<close> over the input 0, 3, the
  output 0, 0, 3 has latest value 3, and its default is still 0: a read at
  timestamp 3 returns 0.
\<close>

theorem set_default_counterexample:
  "step_until_fixpoint_set_new_default_then_return Delay_step output_stream_handle
       (Delay_init [sends IntegerAddition [3]] 0)
     = Some (Inr 1, [sends IntegerAddition [3], sends IntegerAddition [0, 3]],
             \<lparr>input_stream_handle = 0, output_stream_handle = 1\<rparr>)
   \<and> fst (latest (sends IntegerAddition [0, 3])) = Inr 3
   \<and> default_val (sends IntegerAddition [0, 3]) = 0
   \<and> fst (getitem (sends IntegerAddition [0, 3]) 3) = Inr 0
   \<and> default_val (set_default 3 (sends IntegerAddition [0, 3])) = 0"
proof -
  have d: "step_until_fixpoint Delay_step (Delay_init [sends IntegerAddition [3]] 0)
             = Some (Inr (), [sends IntegerAddition [3], sends IntegerAddition [0, 3]],
                     \<lparr>input_stream_handle = 0, output_stream_handle = 1\<rparr>)"
    using Delay_drained [of "[sends IntegerAddition [3]]" 0 IntegerAddition "[3]"]
    by (simp add: IntegerAddition_simps)
  have "step_until_fixpoint_set_new_default_then_return Delay_step output_stream_handle
       (Delay_init [sends IntegerAddition [3]] 0)
     = Some (Inr 1, [sends IntegerAddition [3], sends IntegerAddition [0, 3]],
             \<lparr>input_stream_handle = 0, output_stream_handle = 1\<rparr>)"
    by (rule set_new_default_after_drain [OF d, where g = IntegerAddition and ws = "[0, 3]"])
       simp_all
  then show ?thesis
    using getitem_sends_beyond [of "[0, 3]" 3 IntegerAddition]
    by (simp add: latest_sends set_default_def IntegerAddition_simps)
qed

text \<open>
  C2, as the code has it. For every \<open>Lift1\<close> and \<open>Lift2\<close>, \<open>step\<close>
  returns true, and then changes nothing, exactly when the maximum and the
  minimum over the cursor of each input stream, the cursor of the output stream
  and each frontier coincide: the input cursors belong to the set. Otherwise,
  with inputs given by their histories and frontiers that are not negative, it
  reads each input at its frontier plus one (a read that may extend the input),
  applies the lifted function once, sends the one result to the output,
  adds one to each frontier and returns false.
\<close>

theorem Lift_step_protocol:
  "((fst (Lift1_step (h, l1)) = Inr True)
      = (max (max (timestamp (h ! input_stream_handle l1))
                  (timestamp (h ! output_stream_handle l1))) (frontier l1)
         = min (min (timestamp (h ! input_stream_handle l1))
                    (timestamp (h ! output_stream_handle l1))) (frontier l1)))
   \<and> (max (max (timestamp (h ! input_stream_handle l1))
                (timestamp (h ! output_stream_handle l1))) (frontier l1)
        = min (min (timestamp (h ! input_stream_handle l1))
                   (timestamp (h ! output_stream_handle l1))) (frontier l1)
        \<longrightarrow> Lift1_step (h, l1) = (Inr True, h, l1))
   \<and> (h ! input_stream_handle l1 = sends g vs \<and> 0 \<le> frontier l1
        \<and> max (max (timestamp (h ! input_stream_handle l1))
                    (timestamp (h ! output_stream_handle l1))) (frontier l1)
           \<noteq> min (min (timestamp (h ! input_stream_handle l1))
                      (timestamp (h ! output_stream_handle l1))) (frontier l1)
        \<longrightarrow> (\<exists>v s' h1.
               getitem (h ! input_stream_handle l1) (frontier l1 + 1) = (Inr v, s')
               \<and> h1 = h[input_stream_handle l1 := s']
               \<and> Lift1_step (h, l1)
                   = (Inr False,
                      h1[output_stream_handle l1 :=
                           send (f1 l1 h1 v) (h1 ! output_stream_handle l1)],
                      l1\<lparr>frontier := frontier l1 + 1\<rparr>)))
   \<and> (input_stream_handle_b l2 = Some b \<longrightarrow>
        ((fst (Lift2_step (h, l2)) = Inr True)
           = (max (max (max (max (timestamp (h ! input_stream_handle_a l2)) (timestamp (h ! b)))
                            (timestamp (h ! output_stream_handle_s l2)))
                       (frontier_a l2)) (frontier_b l2)
              = min (min (min (min (timestamp (h ! input_stream_handle_a l2))
                                   (timestamp (h ! b)))
                              (timestamp (h ! output_stream_handle_s l2)))
                         (frontier_a l2)) (frontier_b l2)))
        \<and> (max (max (max (max (timestamp (h ! input_stream_handle_a l2)) (timestamp (h ! b)))
                          (timestamp (h ! output_stream_handle_s l2)))
                     (frontier_a l2)) (frontier_b l2)
             = min (min (min (min (timestamp (h ! input_stream_handle_a l2))
                                  (timestamp (h ! b)))
                             (timestamp (h ! output_stream_handle_s l2)))
                        (frontier_a l2)) (frontier_b l2)
             \<longrightarrow> Lift2_step (h, l2) = (Inr True, h, l2))
        \<and> (h ! input_stream_handle_a l2 = sends ga as \<and> h ! b = sends gb bs
             \<and> input_stream_handle_a l2 < length h
             \<and> 0 \<le> frontier_a l2 \<and> 0 \<le> frontier_b l2
             \<and> max (max (max (max (timestamp (h ! input_stream_handle_a l2))
                                    (timestamp (h ! b)))
                               (timestamp (h ! output_stream_handle_s l2)))
                          (frontier_a l2)) (frontier_b l2)
                \<noteq> min (min (min (min (timestamp (h ! input_stream_handle_a l2))
                                      (timestamp (h ! b)))
                                 (timestamp (h ! output_stream_handle_s l2)))
                            (frontier_a l2)) (frontier_b l2)
             \<longrightarrow> (\<exists>va sa vb sb h2.
                    getitem (h ! input_stream_handle_a l2) (frontier_a l2 + 1) = (Inr va, sa)
                    \<and> getitem (h[input_stream_handle_a l2 := sa] ! b) (frontier_b l2 + 1)
                        = (Inr vb, sb)
                    \<and> h2 = h[input_stream_handle_a l2 := sa, b := sb]
                    \<and> Lift2_step (h, l2)
                        = (Inr False,
                           h2[output_stream_handle_s l2 :=
                                send (f2 l2 h2 va vb) (h2 ! output_stream_handle_s l2)],
                           l2\<lparr>frontier_a := frontier_a l2 + 1,
                              frontier_b := frontier_b l2 + 1\<rparr>))))"
proof (intro conjI impI; (elim conjE)?)
  show "(fst (Lift1_step (h, l1)) = Inr True)
      = (max (max (timestamp (h ! input_stream_handle l1))
                  (timestamp (h ! output_stream_handle l1))) (frontier l1)
         = min (min (timestamp (h ! input_stream_handle l1))
                    (timestamp (h ! output_stream_handle l1))) (frontier l1))"
    by (rule Lift1_step_level)
next
  assume "max (max (timestamp (h ! input_stream_handle l1))
                (timestamp (h ! output_stream_handle l1))) (frontier l1)
        = min (min (timestamp (h ! input_stream_handle l1))
                   (timestamp (h ! output_stream_handle l1))) (frontier l1)"
  then show "Lift1_step (h, l1) = (Inr True, h, l1)" by (rule Lift1_step_noop)
next
  assume "h ! input_stream_handle l1 = sends g vs" "0 \<le> frontier l1"
    "max (max (timestamp (h ! input_stream_handle l1))
                    (timestamp (h ! output_stream_handle l1))) (frontier l1)
           \<noteq> min (min (timestamp (h ! input_stream_handle l1))
                      (timestamp (h ! output_stream_handle l1))) (frontier l1)"
  from Lift1_step_advance [OF this]
  show "\<exists>v s' h1.
               getitem (h ! input_stream_handle l1) (frontier l1 + 1) = (Inr v, s')
               \<and> h1 = h[input_stream_handle l1 := s']
               \<and> Lift1_step (h, l1)
                   = (Inr False,
                      h1[output_stream_handle l1 :=
                           send (f1 l1 h1 v) (h1 ! output_stream_handle l1)],
                      l1\<lparr>frontier := frontier l1 + 1\<rparr>)"
    unfolding heap_send_def by blast
next
  assume "input_stream_handle_b l2 = Some b"
  then show "(fst (Lift2_step (h, l2)) = Inr True)
           = (max (max (max (max (timestamp (h ! input_stream_handle_a l2)) (timestamp (h ! b)))
                            (timestamp (h ! output_stream_handle_s l2)))
                       (frontier_a l2)) (frontier_b l2)
              = min (min (min (min (timestamp (h ! input_stream_handle_a l2))
                                   (timestamp (h ! b)))
                              (timestamp (h ! output_stream_handle_s l2)))
                         (frontier_a l2)) (frontier_b l2))"
    by (rule Lift2_step_level)
next
  assume "input_stream_handle_b l2 = Some b"
    "max (max (max (max (timestamp (h ! input_stream_handle_a l2)) (timestamp (h ! b)))
                          (timestamp (h ! output_stream_handle_s l2)))
                     (frontier_a l2)) (frontier_b l2)
             = min (min (min (min (timestamp (h ! input_stream_handle_a l2))
                                  (timestamp (h ! b)))
                             (timestamp (h ! output_stream_handle_s l2)))
                        (frontier_a l2)) (frontier_b l2)"
  then show "Lift2_step (h, l2) = (Inr True, h, l2)" by (rule Lift2_step_noop)
next
  assume sb: "input_stream_handle_b l2 = Some b"
    and a: "h ! input_stream_handle_a l2 = sends ga as" and b: "h ! b = sends gb bs"
    and rest: "input_stream_handle_a l2 < length h" "0 \<le> frontier_a l2" "0 \<le> frontier_b l2"
      "max (max (max (max (timestamp (h ! input_stream_handle_a l2))
                                    (timestamp (h ! b)))
                               (timestamp (h ! output_stream_handle_s l2)))
                          (frontier_a l2)) (frontier_b l2)
                \<noteq> min (min (min (min (timestamp (h ! input_stream_handle_a l2))
                                      (timestamp (h ! b)))
                                 (timestamp (h ! output_stream_handle_s l2)))
                            (frontier_a l2)) (frontier_b l2)"
  from Lift2_step_advance [OF a sb b rest]
  show "\<exists>va sa vb sb h2.
                    getitem (h ! input_stream_handle_a l2) (frontier_a l2 + 1) = (Inr va, sa)
                    \<and> getitem (h[input_stream_handle_a l2 := sa] ! b) (frontier_b l2 + 1)
                        = (Inr vb, sb)
                    \<and> h2 = h[input_stream_handle_a l2 := sa, b := sb]
                    \<and> Lift2_step (h, l2)
                        = (Inr False,
                           h2[output_stream_handle_s l2 :=
                                send (f2 l2 h2 va vb) (h2 ! output_stream_handle_s l2)],
                           l2\<lparr>frontier_a := frontier_a l2 + 1,
                              frontier_b := frontier_b l2 + 1\<rparr>)"
    unfolding heap_send_def by blast
qed

text \<open>
  One advancing step and one level step of a \<open>Lift1\<close> (the group negation)
  and of a \<open>Lift2\<close> (the group addition); the adder's read extends its
  second input from cursor 0 to cursor 1.
\<close>

theorem Lift_step_protocol_witness:
  "Lift1_step ([sends IntegerAddition [3], sends IntegerAddition [], sends IntegerAddition []],
               snd (LiftedGroupNegate_init [sends IntegerAddition [3]] 0))
     = (Inr False,
        [sends IntegerAddition [3], sends IntegerAddition [- 3], sends IntegerAddition []],
        (snd (LiftedGroupNegate_init [sends IntegerAddition [3]] 0))\<lparr>frontier := 1\<rparr>)
   \<and> Lift2_step ([sends IntegerAddition [3], sends IntegerAddition [], sends IntegerAddition []],
                 LiftedGroupAdd_state 0 1 2 0)
     = (Inr False,
        [sends IntegerAddition [3], sends IntegerAddition [0], sends IntegerAddition [3]],
        LiftedGroupAdd_state 0 1 2 1)
   \<and> Lift1_step ([sends IntegerAddition [3], sends IntegerAddition [0], sends IntegerAddition [3]],
                 (snd (LiftedGroupNegate_init [sends IntegerAddition [3]] 0))\<lparr>frontier := 1\<rparr>)
     = (Inr True,
        [sends IntegerAddition [3], sends IntegerAddition [0], sends IntegerAddition [3]],
        (snd (LiftedGroupNegate_init [sends IntegerAddition [3]] 0))\<lparr>frontier := 1\<rparr>)
   \<and> Lift2_step ([sends IntegerAddition [3], sends IntegerAddition [0], sends IntegerAddition [3]],
                 LiftedGroupAdd_state 0 1 2 1)
     = (Inr True,
        [sends IntegerAddition [3], sends IntegerAddition [0], sends IntegerAddition [3]],
        LiftedGroupAdd_state 0 1 2 1)"
proof -
  let ?s = "sends IntegerAddition"
  let ?h1 = "[?s [3], ?s [], ?s []]" and ?h2 = "[?s [3], ?s [0], ?s [3]]"
  let ?op = "snd (LiftedGroupNegate_init [?s [3]] 0)"
  note law1 = Lift_step_protocol [where h = ?h1 and ?l1.0 = ?op and g = IntegerAddition
      and vs = "[3]" and ?l2.0 = "LiftedGroupAdd_state 0 1 2 0" and b = 1
      and ga = IntegerAddition and as = "[3]" and gb = IntegerAddition and bs = "[]"]
  note law2 = Lift_step_protocol [where h = ?h2 and ?l1.0 = "?op\<lparr>frontier := 1\<rparr>"
      and g = IntegerAddition and vs = "[3]" and ?l2.0 = "LiftedGroupAdd_state 0 1 2 1"
      and b = 1 and ga = IntegerAddition and as = "[3]" and gb = IntegerAddition and bs = "[0]"]
  have r1: "getitem (?s [3]) 1 = (Inr 3, ?s [3])"
    and r2: "getitem (?s []) 1 = (Inr 0, ?s [0])"
    by (simp_all add: getitem_sends IntegerAddition_simps padded_def)
  have a1: "Lift1_step (?h1, ?op) = (Inr False, [?s [3], ?s [- 3], ?s []], ?op\<lparr>frontier := 1\<rparr>)"
    using law1 [THEN conjunct2, THEN conjunct2, THEN conjunct1]
    by (simp add: LiftedGroupNegate_init_example r1 group_def IntegerAddition_simps
          flip: sends_snoc)
  have a2: "Lift2_step (?h1, LiftedGroupAdd_state 0 1 2 0)
              = (Inr False, ?h2, LiftedGroupAdd_state 0 1 2 1)"
    using law1 [THEN conjunct2, THEN conjunct2, THEN conjunct2, rule_format,
        THEN conjunct2, THEN conjunct2]
    by (simp add: LiftedGroupAdd_state_def r1 r2 group_def IntegerAddition_simps
          flip: sends_snoc)
  have b1: "Lift1_step (?h2, ?op\<lparr>frontier := 1\<rparr>) = (Inr True, ?h2, ?op\<lparr>frontier := 1\<rparr>)"
    using law2 [THEN conjunct2, THEN conjunct1]
    by (simp add: LiftedGroupNegate_init_example)
  have b2: "Lift2_step (?h2, LiftedGroupAdd_state 0 1 2 1)
              = (Inr True, ?h2, LiftedGroupAdd_state 0 1 2 1)"
    using law2 [THEN conjunct2, THEN conjunct2, THEN conjunct2, rule_format,
        THEN conjunct2, THEN conjunct1]
    by (simp add: LiftedGroupAdd_state_def)
  from a1 a2 b1 b2 show ?thesis by (simp only: simp_thms)
qed

text \<open>
  The claim leaves the input cursors out of the set. A \<open>Lift1\<close> just built
  over an input of cursor 1 has frontier 0 and output cursor 0, which coincide,
  yet its step does work and returns false.
\<close>

theorem Lift1_step_counterexample:
  "frontier (snd (LiftedGroupNegate_init [sends IntegerAddition [3]] 0)) = 0
   \<and> timestamp (fst (LiftedGroupNegate_init [sends IntegerAddition [3]] 0)
                 ! output_stream_handle
                     (snd (LiftedGroupNegate_init [sends IntegerAddition [3]] 0))) = 0
   \<and> fst (Lift1_step (LiftedGroupNegate_init [sends IntegerAddition [3]] 0)) = Inr False
   \<and> fst (snd (Lift1_step (LiftedGroupNegate_init [sends IntegerAddition [3]] 0)))
       = [sends IntegerAddition [3], sends IntegerAddition [- 3]]"
proof -
  let ?op = "\<lparr>input_stream_handle = 0, output_stream_handle = 1,
         f1 = (\<lambda>h' x. neg (group (h' ! 0)) x), frontier = 0\<rparr> :: int Lift1"
  have "Lift1_step ([sends IntegerAddition [3], sends IntegerAddition []], ?op)
          = (Inr False, [sends IntegerAddition [3], sends IntegerAddition [- 3]],
             ?op\<lparr>frontier := 1\<rparr>)"
    using Lift1_step_sends [of "[sends IntegerAddition [3], sends IntegerAddition []]" ?op
        IntegerAddition "[3]" IntegerAddition "[]" 0]
    by (simp add: Let_def group_def IntegerAddition_simps)
  then show ?thesis
    by (simp add: LiftedGroupNegate_init_example)
qed

text \<open>
  C3, as the code has it. For a stream of plain group values (the group's
  operations are functions of their arguments and satisfy the group laws under
  equality of values) with history \<open>vs\<close> in a store \<open>h\<close>: \<open>Integrate\<close> of
  \<open>Differentiate\<close> of the stream, each drained to fixpoint, returns a stream
  equal under \<open>Stream.__eq__\<close> to the stream, and so does \<open>Differentiate\<close>
  of \<open>Integrate\<close>. The result has the history \<open>vs'\<close> the input is left with
  (a fresh input is extended to cursor 1 by the first drain), and it is equal
  both to the input as it is left and to the input as it was.
\<close>

theorem round_trip:
  "abelian_group g \<and> i < length h \<and> h ! i = sends g vs
     \<and> vs' = (if vs = [] then [identity_elem g] else vs) \<longrightarrow>
   (\<exists>h'. Integrate_of_Differentiate h i = Some (Inr (length h + 3), h')
      \<and> h' ! i = sends g vs'
      \<and> h' ! (length h + 3) = sends g vs'
      \<and> stream_eq (h' ! (length h + 3)) (h' ! i)
      \<and> stream_eq (h' ! (length h + 3)) (sends g vs))
   \<and> (\<exists>h'. Differentiate_of_Integrate h i = Some (Inr (length h + 4), h')
      \<and> h' ! i = sends g vs'
      \<and> h' ! (length h + 4) = sends g vs'
      \<and> stream_eq (h' ! (length h + 4)) (h' ! i)
      \<and> stream_eq (h' ! (length h + 4)) (sends g vs))"
proof (intro impI, elim conjE, intro conjI)
  assume g: "abelian_group g" and b: "i < length h" and i: "h ! i = sends g vs"
    and v: "vs' = (if vs = [] then [identity_elem g] else vs)"
  have fresh: "stream_eq (sends g vs') (sends g vs)"
    unfolding v by (rule stream_eq_extended_fresh)
  let ?h1 = "h[i := sends g vs']
               @ [sends g (take (length vs') (identity_elem g # vs)),
                  sends g (map (neg g) (take (length vs') (identity_elem g # vs))),
                  sends g (differences g vs'),
                  sends g vs',
                  sends g (take (length vs') (identity_elem g # vs'))]"
  have "?h1 ! i = sends g vs'" "?h1 ! (length h + 3) = sends g vs'"
    using b by (simp_all add: nth_append)
  with Integrate_of_Differentiate_sends [OF g b i v] fresh
  show "\<exists>h'. Integrate_of_Differentiate h i = Some (Inr (length h + 3), h')
      \<and> h' ! i = sends g vs'
      \<and> h' ! (length h + 3) = sends g vs'
      \<and> stream_eq (h' ! (length h + 3)) (h' ! i)
      \<and> stream_eq (h' ! (length h + 3)) (sends g vs)"
    by (intro exI [of _ ?h1]) (simp only: stream_eq_refl simp_thms)
  let ?rs = "running_sums g (identity_elem g) vs'"
  let ?h2 = "h[i := sends g vs']
               @ [sends g ?rs,
                  sends g (take (length vs') (identity_elem g # ?rs)),
                  sends g (take (length vs') (identity_elem g # ?rs)),
                  sends g (map (neg g) (take (length vs') (identity_elem g # ?rs))),
                  sends g vs']"
  have "?h2 ! i = sends g vs'" "?h2 ! (length h + 4) = sends g vs'"
    using b by (simp_all add: nth_append)
  with Differentiate_of_Integrate_sends [OF g b i v] fresh
  show "\<exists>h'. Differentiate_of_Integrate h i = Some (Inr (length h + 4), h')
      \<and> h' ! i = sends g vs'
      \<and> h' ! (length h + 4) = sends g vs'
      \<and> stream_eq (h' ! (length h + 4)) (h' ! i)
      \<and> stream_eq (h' ! (length h + 4)) (sends g vs)"
    by (intro exI [of _ ?h2]) (simp only: stream_eq_refl simp_thms)
qed

text \<open>Both round trips on 0, 3, 5, 2, and the first on a fresh stream.\<close>

theorem round_trip_witness:
  "abelian_group IntegerAddition
   \<and> (case Integrate_of_Differentiate [sends IntegerAddition [3, 5, 2]] 0 of
        Some (Inr r, h') \<Rightarrow>
          h' ! r = sends IntegerAddition [3, 5, 2] \<and> stream_eq (h' ! r) (h' ! 0)
      | _ \<Rightarrow> False)
   \<and> (case Differentiate_of_Integrate [sends IntegerAddition [3, 5, 2]] 0 of
        Some (Inr r, h') \<Rightarrow>
          h' ! r = sends IntegerAddition [3, 5, 2] \<and> stream_eq (h' ! r) (h' ! 0)
      | _ \<Rightarrow> False)
   \<and> (case Integrate_of_Differentiate [sends IntegerAddition []] 0 of
        Some (Inr r, h') \<Rightarrow>
          h' ! r = sends IntegerAddition [0] \<and> stream_eq (h' ! r) (h' ! 0)
          \<and> stream_eq (h' ! r) (sends IntegerAddition [])
      | _ \<Rightarrow> False)"
  using round_trip [of IntegerAddition 0 "[sends IntegerAddition [3, 5, 2]]" "[3, 5, 2]"
      "[3, 5, 2]"]
    round_trip [of IntegerAddition 0 "[sends IntegerAddition []]" "[]" "[0]"]
  by (auto simp: abelian_group_IntegerAddition IntegerAddition_simps)

text \<open>
  The claim is stated for every stream, and a stream may hold streams. There
  the round trip fails: for the stream that holds \<open>X\<close> (cursor 1) and then
  \<open>Y\<close> (cursor 3), the first sum that \<open>Integrate\<close> stores is read again by
  the next \<open>StreamAddition.add\<close>, which extends it to cursor 3, so it is no
  longer equal to \<open>X\<close>; both comparisons return false.
\<close>

theorem round_trip_counterexample:
  "Integrate_of_Differentiate2_equals nested_example 0 = Some (Inr False)
   \<and> Differentiate_of_Integrate2_equals nested_example 0 = Some (Inr False)"
  by code_simp



text \<open>
  C5. For a stream with history \<open>vs\<close> in a store \<open>h\<close>, \<open>Differentiate\<close>
  drained to fixpoint ends with the output cursor equal to the input cursor,
  the identity at timestamp 0 and, at every timestamp \<open>t\<close> from 1 to the
  input's cursor, the input's value at \<open>t\<close> plus the negation of its value at
  \<open>t - 1\<close>. (A fresh input, cursor 0, is extended to cursor 1 by the first
  step; \<open>vs'\<close> is the input's history after the drain, and the values are
  stated for the input both as it was and as it is left.) One call of
  \<open>Differentiate.step\<close> is the delay's step, then the negation's, then the
  adder's, and it returns true exactly when the output cursor then equals the
  input cursor.
\<close>

theorem Differentiate_law:
  "(i < length h \<and> h ! i = sends g vs \<and> vs' = (if vs = [] then [identity_elem g] else vs) \<longrightarrow>
      step_until_fixpoint Differentiate_step (Differentiate_init h i)
        = Some (Inr (),
                h[i := sends g vs']
                  @ [sends g (take (length vs') (identity_elem g # vs)),
                     sends g (map (neg g) (take (length vs') (identity_elem g # vs))),
                     sends g (differences g vs')],
                Differentiate_state i (length h) (Suc (length h)) (Suc (Suc (length h)))
                  (length vs'))
      \<and> timestamp (sends g (differences g vs')) = timestamp (sends g vs')
      \<and> getitem (sends g (differences g vs')) 0
          = (Inr (identity_elem g), sends g (differences g vs'))
      \<and> (\<forall>t. 1 \<le> t \<and> t \<le> timestamp (sends g vs') \<longrightarrow>
            (\<exists>a b. getitem (sends g vs') t = (Inr a, sends g vs')
               \<and> getitem (sends g vs') (t - 1) = (Inr b, sends g vs')
               \<and> getitem (sends g (differences g vs')) t
                   = (Inr (add g a (neg g b)), sends g (differences g vs'))))
      \<and> (\<forall>t. 1 \<le> t \<and> t \<le> timestamp (sends g vs) \<longrightarrow>
            (\<exists>a b. getitem (sends g vs) t = (Inr a, sends g vs)
               \<and> getitem (sends g vs) (t - 1) = (Inr b, sends g vs)
               \<and> getitem (sends g (differences g vs')) t
                   = (Inr (add g a (neg g b)), sends g (differences g vs')))))
   \<and> (Delay_step (H, delayed_stream self) = (Inr r1, H1, D)
        \<and> Lift1_step (H1, delayed_negated_stream self) = (Inr r2, H2, N)
        \<and> Lift2_step (H2, differentiation_stream self) = (Inr r3, H3, A) \<longrightarrow>
        Differentiate_step (H, self)
          = (Inr (timestamp (H3 ! output_stream_handle self)
                  = timestamp (H3 ! input_stream_handle self)),
             H3,
             self\<lparr>delayed_stream := D, delayed_negated_stream := N,
                  differentiation_stream := A\<rparr>))
   \<and> (Differentiate_step (H, self) = (Inr b, H', self') \<longrightarrow>
        b = (timestamp (H' ! output_stream_handle self)
             = timestamp (H' ! input_stream_handle self)))"
proof (intro conjI impI allI; (elim conjE)?)
  assume a: "i < length h" "h ! i = sends g vs"
    and v: "vs' = (if vs = [] then [identity_elem g] else vs)"
  have "max 1 (length vs) = length vs'" using v by (cases vs) simp_all
  then show "step_until_fixpoint Differentiate_step (Differentiate_init h i)
        = Some (Inr (),
                h[i := sends g vs']
                  @ [sends g (take (length vs') (identity_elem g # vs)),
                     sends g (map (neg g) (take (length vs') (identity_elem g # vs))),
                     sends g (differences g vs')],
                Differentiate_state i (length h) (Suc (length h)) (Suc (Suc (length h)))
                  (length vs'))"
    using Differentiate_drained [OF a(2,1)] v by (simp only: padded_one)
next
  show "timestamp (sends g (differences g vs')) = timestamp (sends g vs')" by simp
next
  show "getitem (sends g (differences g vs')) 0
          = (Inr (identity_elem g), sends g (differences g vs'))"
    by (simp add: getitem_sends_in_range)
next
  fix t :: int
  assume "1 \<le> t" "t \<le> timestamp (sends g vs')"
  then show "\<exists>a b. getitem (sends g vs') t = (Inr a, sends g vs')
               \<and> getitem (sends g vs') (t - 1) = (Inr b, sends g vs')
               \<and> getitem (sends g (differences g vs')) t
                   = (Inr (add g a (neg g b)), sends g (differences g vs'))"
    by (intro differences_values) simp_all
next
  fix t :: int
  assume v: "vs' = (if vs = [] then [identity_elem g] else vs)"
    and t: "1 \<le> t" "t \<le> timestamp (sends g vs)"
  then have "vs' = vs" by auto
  with t show "\<exists>a b. getitem (sends g vs) t = (Inr a, sends g vs)
               \<and> getitem (sends g vs) (t - 1) = (Inr b, sends g vs)
               \<and> getitem (sends g (differences g vs')) t
                   = (Inr (add g a (neg g b)), sends g (differences g vs'))"
    using differences_values [of t vs g] by simp
next
  assume "Delay_step (H, delayed_stream self) = (Inr r1, H1, D)"
    "Lift1_step (H1, delayed_negated_stream self) = (Inr r2, H2, N)"
    "Lift2_step (H2, differentiation_stream self) = (Inr r3, H3, A)"
  then show "Differentiate_step (H, self)
          = (Inr (timestamp (H3 ! output_stream_handle self)
                  = timestamp (H3 ! input_stream_handle self)),
             H3,
             self\<lparr>delayed_stream := D, delayed_negated_stream := N,
                  differentiation_stream := A\<rparr>)"
    by (rule Differentiate_step_order)
next
  assume "Differentiate_step (H, self) = (Inr b, H', self')"
  then show "b = (timestamp (H' ! output_stream_handle self)
             = timestamp (H' ! input_stream_handle self))"
    by (rule Differentiate_step_reports)
qed

text \<open>
  The scenario of the specification: differentiating 0, 3, 8, 10 gives
  0, 3, 5, 2; and one step on a one-value input, from its three sub-steps.
\<close>

theorem Differentiate_law_witness:
  "step_until_fixpoint Differentiate_step
       (Differentiate_init [sends IntegerAddition [3, 8, 10]] 0)
     = Some (Inr (),
             [sends IntegerAddition [3, 8, 10], sends IntegerAddition [0, 3, 8],
              sends IntegerAddition [0, - 3, - 8], sends IntegerAddition [3, 5, 2]],
             Differentiate_state 0 1 2 3 3)
   \<and> fst (to_list (sends IntegerAddition [3, 5, 2])) = Inr [0, 3, 5, 2]
   \<and> Differentiate_step
         ([sends IntegerAddition [3], sends IntegerAddition [], sends IntegerAddition [],
           sends IntegerAddition []],
          Differentiate_state 0 1 2 3 0)
       = (Inr True,
          [sends IntegerAddition [3], sends IntegerAddition [0], sends IntegerAddition [0],
           sends IntegerAddition [3]],
          Differentiate_state 0 1 2 3 1)"
proof -
  let ?s = "sends IntegerAddition"
  let ?H = "[?s [3], ?s [], ?s [], ?s []]"
  let ?H1 = "[?s [3], ?s [0], ?s [], ?s []]"
  let ?H2 = "[?s [3], ?s [0], ?s [0], ?s []]"
  let ?H3 = "[?s [3], ?s [0], ?s [0], ?s [3]]"
  let ?self = "Differentiate_state 0 1 2 3 0 :: int Differentiate"
  let ?D = "delayed_stream ?self"
  let ?N = "delayed_negated_stream ?self"
  let ?A = "differentiation_stream ?self"
  have s1: "Delay_step (?H, ?D) = (Inr False, ?H1, ?D)"
    using Delay_step_sends [of ?H ?D IntegerAddition "[3]" IntegerAddition "[]"]
    by (simp add: Differentiate_state_def IntegerAddition_simps)
  have s2: "Lift1_step (?H1, ?N) = (Inr False, ?H2, ?N\<lparr>frontier := 1\<rparr>)"
    using Lift1_step_sends [of ?H1 ?N IntegerAddition "[0]" IntegerAddition "[]" 0]
    by (simp add: Differentiate_state_def group_def Let_def IntegerAddition_simps)
  have s3: "Lift2_step (?H2, ?A)
              = (Inr False, ?H3, ?A\<lparr>frontier_a := 1, frontier_b := 1\<rparr>)"
    using Lift2_step_sends [of ?H2 ?A IntegerAddition "[3]" 2 IntegerAddition "[0]"
        IntegerAddition "[]" 0 0]
    by (simp add: Differentiate_state_def group_def Let_def IntegerAddition_simps)
  note law = Differentiate_law [where i = 0 and h = "[?s [3, 8, 10]]" and g = IntegerAddition
      and vs = "[3, 8, 10]" and vs' = "[3, 8, 10]" and H = ?H and self = ?self
      and ?H1.0 = ?H1 and D = ?D and ?r1.0 = False
      and ?H2.0 = ?H2 and N = "?N\<lparr>frontier := 1\<rparr>" and ?r2.0 = False
      and ?H3.0 = ?H3 and A = "?A\<lparr>frontier_a := 1, frontier_b := 1\<rparr>" and ?r3.0 = False]
  have drained: "step_until_fixpoint Differentiate_step
       (Differentiate_init [sends IntegerAddition [3, 8, 10]] 0)
     = Some (Inr (),
             [sends IntegerAddition [3, 8, 10], sends IntegerAddition [0, 3, 8],
              sends IntegerAddition [0, - 3, - 8], sends IntegerAddition [3, 5, 2]],
             Differentiate_state 0 1 2 3 3)"
    using law [THEN conjunct1, rule_format, THEN conjunct1]
    by (simp add: differences_example numeral_2_eq_2 numeral_3_eq_3 IntegerAddition_simps)
  have step: "Differentiate_step (?H, ?self) = (Inr True, ?H3, Differentiate_state 0 1 2 3 1)"
    using law [THEN conjunct2, THEN conjunct1, rule_format] s1 s2 s3
    by (simp add: Differentiate_state_def)
  from drained step show ?thesis
    by (simp add: to_list_IntegerAddition)
qed

text \<open>
  C6. For a stream with history \<open>vs\<close> in a store \<open>h\<close>, \<open>Delay\<close> drained
  to fixpoint ends with an output one timestamp longer than the input, holding
  the group identity at timestamp 0 and, at every timestamp \<open>t\<close> from 1 to its
  cursor, the input's value at \<open>t - 1\<close>. One call of \<open>Delay.step\<close>, for any
  input and output histories: while the output cursor is at most the input
  cursor it sends the input's value at the output cursor to the output and
  returns false; once the output cursor is beyond, it returns true and changes
  nothing.
\<close>

theorem Delay_law:
  "(i < length h \<and> h ! i = sends g vs \<longrightarrow>
      step_until_fixpoint Delay_step (Delay_init h i)
        = Some (Inr (), h @ [sends g (identity_elem g # vs)],
                \<lparr>input_stream_handle = i, output_stream_handle = length h\<rparr>)
      \<and> timestamp (sends g (identity_elem g # vs)) = timestamp (sends g vs) + 1
      \<and> getitem (sends g (identity_elem g # vs)) 0
          = (Inr (identity_elem g), sends g (identity_elem g # vs))
      \<and> (\<forall>t. 1 \<le> t \<and> t \<le> timestamp (sends g (identity_elem g # vs)) \<longrightarrow>
             getitem (sends g (identity_elem g # vs)) t
               = (fst (getitem (sends g vs) (t - 1)), sends g (identity_elem g # vs))))
   \<and> (H ! input_stream_handle self = sends g vs
        \<and> H ! output_stream_handle self = sends g' ds \<longrightarrow>
        (if timestamp (sends g' ds) \<le> timestamp (sends g vs)
         then \<exists>v. getitem (sends g vs) (timestamp (sends g' ds)) = (Inr v, sends g vs)
                \<and> Delay_step (H, self)
                    = (Inr False, H[output_stream_handle self := send v (sends g' ds)], self)
         else Delay_step (H, self) = (Inr True, H, self)))"
proof (intro conjI impI allI; (elim conjE)?)
  assume "i < length h" "h ! i = sends g vs"
  then show "step_until_fixpoint Delay_step (Delay_init h i)
        = Some (Inr (), h @ [sends g (identity_elem g # vs)],
                \<lparr>input_stream_handle = i, output_stream_handle = length h\<rparr>)"
    by (simp add: Delay_drained)
next
  show "timestamp (sends g (identity_elem g # vs)) = timestamp (sends g vs) + 1" by simp
next
  show "getitem (sends g (identity_elem g # vs)) 0
          = (Inr (identity_elem g), sends g (identity_elem g # vs))"
    by (simp add: getitem_sends_in_range)
next
  fix t :: int
  assume t: "1 \<le> t" "t \<le> timestamp (sends g (identity_elem g # vs))"
  then have "fst (getitem (sends g (identity_elem g # vs)) t)
               = Inr ((identity_elem g # vs) ! nat (t - 1))"
    by (intro getitem_shifted) simp_all
  moreover have "getitem (sends g vs) (t - 1)
                   = (Inr ((identity_elem g # vs) ! nat (t - 1)), sends g vs)"
    using t by (intro getitem_sends_in_range) simp_all
  moreover have "snd (getitem (sends g (identity_elem g # vs)) t)
                   = sends g (identity_elem g # vs)"
    using t by (simp add: getitem_sends_in_range)
  ultimately show "getitem (sends g (identity_elem g # vs)) t
               = (fst (getitem (sends g vs) (t - 1)), sends g (identity_elem g # vs))"
    by (simp add: prod_eq_iff)
next
  assume a: "H ! input_stream_handle self = sends g vs"
    "H ! output_stream_handle self = sends g' ds"
  show "if timestamp (sends g' ds) \<le> timestamp (sends g vs)
         then \<exists>v. getitem (sends g vs) (timestamp (sends g' ds)) = (Inr v, sends g vs)
                \<and> Delay_step (H, self)
                    = (Inr False, H[output_stream_handle self := send v (sends g' ds)], self)
         else Delay_step (H, self) = (Inr True, H, self)"
    by (simp add: Delay_step_sends [OF a] getitem_sends_in_range sends_snoc)
qed

text \<open>The input 3, 5, 2 delayed, and one step of each kind.\<close>

theorem Delay_law_witness:
  "step_until_fixpoint Delay_step (Delay_init [sends IntegerAddition [3, 5, 2]] 0)
     = Some (Inr (), [sends IntegerAddition [3, 5, 2], sends IntegerAddition [0, 3, 5, 2]],
             \<lparr>input_stream_handle = 0, output_stream_handle = 1\<rparr>)
   \<and> fst (to_list (sends IntegerAddition [0, 3, 5, 2])) = Inr [0, 0, 3, 5, 2]
   \<and> Delay_step ([sends IntegerAddition [3, 5, 2], sends IntegerAddition [0]],
                 \<lparr>input_stream_handle = 0, output_stream_handle = 1\<rparr>)
       = (Inr False, [sends IntegerAddition [3, 5, 2], sends IntegerAddition [0, 3]],
          \<lparr>input_stream_handle = 0, output_stream_handle = 1\<rparr>)
   \<and> Delay_step ([sends IntegerAddition [3], sends IntegerAddition [0, 3]],
                 \<lparr>input_stream_handle = 0, output_stream_handle = 1\<rparr>)
       = (Inr True, [sends IntegerAddition [3], sends IntegerAddition [0, 3]],
          \<lparr>input_stream_handle = 0, output_stream_handle = 1\<rparr>)"
  using Delay_law [of 0 "[sends IntegerAddition [3, 5, 2]]" IntegerAddition "[3, 5, 2]"
      "[sends IntegerAddition [3, 5, 2], sends IntegerAddition [0]]"
      "\<lparr>input_stream_handle = 0, output_stream_handle = 1\<rparr>" IntegerAddition "[0]"]
    Delay_law [of 0 "[sends IntegerAddition [3]]" IntegerAddition "[3]"
      "[sends IntegerAddition [3], sends IntegerAddition [0, 3]]"
      "\<lparr>input_stream_handle = 0, output_stream_handle = 1\<rparr>" IntegerAddition "[0, 3]"]
  by (simp add: to_list_IntegerAddition getitem_sends_in_range flip: sends_snoc)
     (simp add: IntegerAddition_def)

text \<open>
  C7. Two streams that have each never been sent a value different from their
  default are equal whatever their cursors; otherwise two streams are equal
  exactly when their cursors are equal and their explicit-value mappings are
  equal. The streams are given by their histories \<open>vs\<close> and \<open>ws\<close>.
\<close>

theorem stream_eq_sends:
  "stream_eq (sends g vs) (sends g' ws) =
     (if (\<forall>v\<in>set vs. v = default_val (sends g vs)) \<and> (\<forall>w\<in>set ws. w = default_val (sends g' ws))
      then True
      else timestamp (sends g vs) = timestamp (sends g' ws)
           \<and> inner (sends g vs) = inner (sends g' ws))"
  by (simp add: stream_eq_def is_identity_stream_def get_current_time_def)

text \<open>
  An instance: a fresh stream (cursor 0) equals one that was sent a hundred
  zeros (cursor 100); streams that did receive a non-default value are compared
  by cursor and mapping.
\<close>

theorem stream_eq_sends_witness:
  "timestamp (sends IntegerAddition []) = 0
   \<and> timestamp (sends IntegerAddition (replicate 100 0)) = 100
   \<and> stream_eq (sends IntegerAddition []) (sends IntegerAddition (replicate 100 0))
   \<and> \<not> stream_eq (sends IntegerAddition [3]) (sends IntegerAddition [3, 0])
   \<and> stream_eq (sends IntegerAddition [0, 3]) (sends IntegerAddition [0, 3])
   \<and> \<not> stream_eq (sends IntegerAddition [3, 0]) (sends IntegerAddition [0, 3])"
  using stream_eq_sends [of IntegerAddition "[]" IntegerAddition "replicate 100 0"]
    stream_eq_sends [of IntegerAddition "[3]" IntegerAddition "[3, 0]"]
    stream_eq_sends [of IntegerAddition "[0, 3]" IntegerAddition "[0, 3]"]
    stream_eq_sends [of IntegerAddition "[3, 0]" IntegerAddition "[0, 3]"]
  by (simp add: inner_sends_IntegerAddition_examples) (simp add: IntegerAddition_def)

text \<open>
  C8. Reading a stream at a timestamp \<open>t\<close> beyond its cursor sends the
  current default until the cursor is exactly \<open>t\<close>, and returns the default
  value, which is also what the stream then holds at \<open>t\<close>.
\<close>

theorem getitem_beyond:
  assumes "timestamp (sends g vs) < t"
  shows "getitem (sends g vs) t
           = (Inr (default_val (sends g vs)),
              ((\<lambda>s. send (default_val s) s) ^^ nat (t - timestamp (sends g vs))) (sends g vs))
         \<and> timestamp (snd (getitem (sends g vs) t)) = t
         \<and> lookup (snd (getitem (sends g vs) t)) t = Inr (default_val (sends g vs))"
proof -
  from assms have t: "0 \<le> t" "length vs < nat t" by simp_all
  have n: "nat (t - int (length vs)) = nat t - length vs" using t by linarith
  have v: "(identity_elem g # padded (identity_elem g) (nat t) vs) ! nat t = identity_elem g"
  proof -
    from t obtain k where k: "nat t = Suc k" by (cases "nat t") auto
    with t show ?thesis by (simp add: padded_def nth_append)
  qed
  have l: "t \<le> int (length (padded (identity_elem g) (nat t) vs))" using t by simp
  show ?thesis
    using t v l
    by (simp add: getitem_sends sends_padded n lookup_sends flip: sends_padded) 
qed

text \<open>
  The scenario of the specification: default 0, cursor 2, nothing stored, read
  at 5.
\<close>

theorem getitem_beyond_witness:
  "default_val (sends IntegerAddition [0, 0]) = 0
   \<and> timestamp (sends IntegerAddition [0, 0]) = 2
   \<and> inner (sends IntegerAddition [0, 0]) = []
   \<and> fst (getitem (sends IntegerAddition [0, 0]) 5) = Inr 0
   \<and> timestamp (snd (getitem (sends IntegerAddition [0, 0]) 5)) = 5"
  using getitem_beyond [of IntegerAddition "[0, 0]" 5]
  by (simp add: inner_sends_IntegerAddition_zeros funpow_send_default)
     (simp add: IntegerAddition_def)

text \<open>
  C9. Reading any stream at a negative timestamp raises \<open>ValueError\<close> and
  leaves the stream (cursor, explicit values, default, identity flag, every
  field) as it was.
\<close>

theorem getitem_negative: "t < 0 \<Longrightarrow> getitem s t = (Inl ValueError, s)"
  by (simp add: getitem.simps [of s t])

theorem getitem_negative_witness:
  "(- 1 :: int) < 0 \<and> getitem (sends IntegerAddition [3, 5]) (- 1)
     = (Inl ValueError, sends IntegerAddition [3, 5])"
  using getitem_negative [of "- 1" "sends IntegerAddition [3, 5]"] by simp

text \<open>
  C10. \<open>StreamAddition.add(a, b)\<close> writes to its arguments: for operands
  with histories \<open>as\<close> and \<open>bs\<close> in a store \<open>h\<close> (the same stream twice
  included), the call returns a new stream and leaves both operands with cursor
  equal to the larger of the two cursors they had; nothing else of an operand
  changes: the explicit-value mapping, the identity flag, the default and every
  other field are as before.
\<close>

theorem StreamAddition_add_extends_operands:
  "a < length h \<and> b < length h \<and> h ! a = sends ga as \<and> h ! b = sends gb bs
     \<and> m = max (timestamp (h ! a)) (timestamp (h ! b)) \<longrightarrow>
   (\<exists>h'. StreamAddition_add h a b = Some (Inr (length h), h')
      \<and> timestamp (h' ! a) = m \<and> timestamp (h' ! b) = m
      \<and> h' ! a = (h ! a)\<lparr>timestamp := m\<rparr> \<and> h' ! b = (h ! b)\<lparr>timestamp := m\<rparr>
      \<and> inner (h' ! a) = inner (h ! a) \<and> inner (h' ! b) = inner (h ! b)
      \<and> identity (h' ! a) = identity (h ! a) \<and> identity (h' ! b) = identity (h ! b)
      \<and> default_val (h' ! a) = default_val (h ! a)
      \<and> default_val (h' ! b) = default_val (h ! b))"
proof (intro impI, elim conjE)
  assume bound: "a < length h" "b < length h"
    and a: "h ! a = sends ga as" and b: "h ! b = sends gb bs"
    and m: "m = max (timestamp (h ! a)) (timestamp (h ! b))"
  have m': "m = int (max (length as) (length bs))" using m a b by simp
  have "\<exists>h'. StreamAddition_add h a b = Some (Inr (length h), h')
          \<and> h' ! a = (h ! a)\<lparr>timestamp := m\<rparr> \<and> h' ! b = (h ! b)\<lparr>timestamp := m\<rparr>"
  proof (cases "a = b")
    case True
    with a b have "(h ! a)\<lparr>timestamp := m\<rparr> = h ! a" using m by simp
    with StreamAddition_add_alias [OF bound(1) a] True show ?thesis by auto
  next
    case False
    from StreamAddition_add_distinct [OF False bound a b] show ?thesis
      unfolding m' .
  qed
  then obtain h' where "StreamAddition_add h a b = Some (Inr (length h), h')"
    and "h' ! a = (h ! a)\<lparr>timestamp := m\<rparr>" and "h' ! b = (h ! b)\<lparr>timestamp := m\<rparr>"
    by blast
  then show "\<exists>h'. StreamAddition_add h a b = Some (Inr (length h), h')
      \<and> timestamp (h' ! a) = m \<and> timestamp (h' ! b) = m
      \<and> h' ! a = (h ! a)\<lparr>timestamp := m\<rparr> \<and> h' ! b = (h ! b)\<lparr>timestamp := m\<rparr>
      \<and> inner (h' ! a) = inner (h ! a) \<and> inner (h' ! b) = inner (h ! b)
      \<and> identity (h' ! a) = identity (h ! a) \<and> identity (h' ! b) = identity (h ! b)
      \<and> default_val (h' ! a) = default_val (h ! a)
      \<and> default_val (h' ! b) = default_val (h ! b)"
    by (intro exI [of _ h']) simp
qed

text \<open>Adding a stream of cursor 1 to a stream of cursor 3.\<close>

theorem StreamAddition_add_extends_operands_witness:
  "timestamp (sends IntegerAddition [3, 5, 2]) = 3
   \<and> timestamp (sends IntegerAddition [1]) = 1
   \<and> (case StreamAddition_add [sends IntegerAddition [3, 5, 2], sends IntegerAddition [1]] 0 1 of
        Some (Inr r, h') \<Rightarrow>
          r = 2 \<and> timestamp (h' ! 0) = 3 \<and> timestamp (h' ! 1) = 3
          \<and> inner (h' ! 0) = [(1, 3), (2, 5), (3, 2)] \<and> inner (h' ! 1) = [(1, 1)]
          \<and> default_val (h' ! 1) = 0
      | _ \<Rightarrow> False)"
  using StreamAddition_add_extends_operands [of 0
      "[sends IntegerAddition [3, 5, 2], sends IntegerAddition [1]]" 1 IntegerAddition
      "[3, 5, 2]" IntegerAddition "[1]" 3]
  by (auto simp: sends_example_fields IntegerAddition_simps)

end
